theory Spec2Isabelle
  imports Main
begin

section \<open>Python values\<close>

subsection \<open>Strings\<close>

text \<open>
  A Python \<open>str\<close> is modelled as a \<open>string\<close>: one \<open>char\<close> per character of
  the \<open>str\<close>, so \<open>length\<close> is Python's \<open>len\<close>. A \<open>char\<close> ranges over the code
  points 0..255 (Latin-1); characters beyond that range are outside the model.
\<close>

definition LF :: char where
  "LF = CHR 0x0A"

definition CR :: char where
  "CR = CHR 0x0D"

definition DQUOTE :: char where
  "DQUOTE = CHR 0x22"

definition BACKSLASH :: char where
  "BACKSLASH = CHR 0x5C"

text \<open>\<open>s.replace(a, b)\<close> for one-character \<open>a\<close> and \<open>b\<close>.\<close>

definition replace_char :: "char \<Rightarrow> char \<Rightarrow> string \<Rightarrow> string" where
  "replace_char a b s = map (\<lambda>c. if c = a then b else c) s"

text \<open>
  \<open>str.isspace\<close> on one character, which is also what \<open>\s\<close> matches in a \<open>str\<close>
  pattern: tab, line feed, vertical tab, form feed, carriage return, the separators
  0x1C..0x1F, space, NEL (0x85) and the no-break space (0xA0).
\<close>

definition py_isspace :: "char \<Rightarrow> bool" where
  "py_isspace c =
     (let n = (of_char c :: nat)
      in (9 \<le> n \<and> n \<le> 13) \<or> (28 \<le> n \<and> n \<le> 32) \<or> n = 133 \<or> n = 160)"

text \<open>\<open>s.strip()\<close>: leading and trailing whitespace removed.\<close>

definition py_strip :: "string \<Rightarrow> string" where
  "py_strip s = rev (dropWhile py_isspace (rev (dropWhile py_isspace s)))"

text \<open>
  Lower-casing of one character: the ASCII capitals and the Latin-1 capitals
  0xC0..0xDE (but not the multiplication sign 0xD7) move up by 32.
\<close>

definition py_lower_char :: "char \<Rightarrow> char" where
  "py_lower_char c =
     (let n = (of_char c :: nat)
      in if (65 \<le> n \<and> n \<le> 90) \<or> (192 \<le> n \<and> n \<le> 222 \<and> n \<noteq> 215)
         then char_of (n + 32) else c)"

text \<open>\<open>s.lower()\<close>.\<close>

definition py_lower :: "string \<Rightarrow> string" where
  "py_lower s = map py_lower_char s"

text \<open>\<open>s.endswith(suffix)\<close> and \<open>s.startswith(prefix)\<close>.\<close>

definition endswith :: "string \<Rightarrow> string \<Rightarrow> bool" where
  "endswith s suffix = (length suffix \<le> length s \<and> drop (length s - length suffix) s = suffix)"

definition startswith :: "string \<Rightarrow> string \<Rightarrow> bool" where
  "startswith s pre = (take (length pre) s = pre)"

text \<open>\<open>sep.join(xs)\<close>.\<close>

fun join :: "string \<Rightarrow> string list \<Rightarrow> string" where
  "join sep [] = []"
| "join sep [x] = x"
| "join sep (x # y # ys) = x @ sep @ join sep (y # ys)"

text \<open>\<open>c\<close> is one of the decimal digits \<open>0\<close>..\<open>9\<close> (what \<open>\d\<close> matches in Latin-1).\<close>

definition is_digit :: "char \<Rightarrow> bool" where
  "is_digit c = (let n = (of_char c :: nat) in 48 \<le> n \<and> n \<le> 57)"

definition digit_val :: "char \<Rightarrow> nat" where
  "digit_val c = of_char c - 48"

definition digit_char :: "nat \<Rightarrow> char" where
  "digit_char n = char_of (48 + n)"

text \<open>\<open>int(s)\<close> for a string of decimal digits.\<close>

definition int_of_digits :: "string \<Rightarrow> nat" where
  "int_of_digits s = foldl (\<lambda>acc c. 10 * acc + digit_val c) 0 s"

text \<open>\<open>str(n)\<close> for a natural number \<open>n\<close>.\<close>

function str_nat :: "nat \<Rightarrow> string" where
  "str_nat n = (if n < 10 then [digit_char n] else str_nat (n div 10) @ [digit_char (n mod 10)])"
  by pat_completeness auto
termination
  by (relation "measure id") auto

declare str_nat.simps [simp del]

text \<open>A number's digits with zeros on the left up to width \<open>w\<close>, as \<open>strftime\<close> pads.\<close>

definition zfill :: "nat \<Rightarrow> string \<Rightarrow> string" where
  "zfill w s = replicate (w - length s) (CHR ''0'') @ s"

text \<open>\<open>os.path.join(a, b)\<close> on a POSIX system.\<close>

definition path_join :: "string \<Rightarrow> string \<Rightarrow> string" where
  "path_join a b =
     (if startswith b ''/'' then b
      else if a = [] \<or> endswith a ''/'' then a @ b
      else a @ ''/'' @ b)"

subsection \<open>Exceptions\<close>

text \<open>
  An exception is modelled by its class; its message is left out. A call that can raise
  returns \<open>exn + 'a\<close>, with \<open>Inl e\<close> for "raised \<open>e\<close>". \<open>KeyboardInterrupt\<close> and
  \<open>SystemExit\<close> derive from \<open>BaseException\<close> only, so \<open>except Exception\<close> lets them
  pass. \<open>Unmodelled\<close> is no Python exception: it marks the inputs of
  \<open>str.format\<close> that the model of that method does not cover.
\<close>

datatype exn =
    ValueError | TypeError | KeyError | IndexError | ImportError | EOFError | OSError
  | ConnectionError | TimeoutException | NoSuchElementException | WebDriverException
  | KeyboardInterrupt | SystemExit | Unmodelled

definition is_Exception :: "exn \<Rightarrow> bool" where
  "is_Exception e = (e \<noteq> KeyboardInterrupt \<and> e \<noteq> SystemExit)"

section \<open>scraper.py: PresidencyDocumentScraper\<close>

subsection \<open>The state of a scraper and of what it drives\<close>

text \<open>One constructor per logging call of the source, with the values it formats.\<close>

datatype log_entry =
    Error_parsing_date string exn
  | Processing_page nat
  | Error_processing_document exn
  | Fatal_error exn
  | Timeout_waiting_for_document_links
  | Saved_document_to string
  | Timeout_waiting_for_document_content
  | Error_saving_document exn
  | No_more_pages_to_process
  | Error_during_cleanup exn

text \<open>The navigation commands sent to the browser (\<open>self.driver\<close>), in the order sent.\<close>

datatype driver_call = Get string | Click_link | Click_next | Back | Quit

text \<open>
  \<open>log\<close> is what \<open>self.logger\<close> has recorded (the log file \<open>scraping.log\<close>),
  \<open>disk\<close> the other files (path to the bytes of the file), \<open>calls\<close> the
  navigation commands sent so far. \<open>libc_pads_year\<close> is a property of the platform:
  whether \<open>strftime\<close>'s \<open>%Y\<close> pads a year below 1000 with zeros to four digits
  (the C library decides; glibc does not pad).
\<close>

record scraper =
  log :: "log_entry list"
  disk :: "string \<rightharpoonup> string"
  calls :: "driver_call list"
  libc_pads_year :: bool

definition add_log :: "log_entry \<Rightarrow> scraper \<Rightarrow> scraper" where
  "add_log e s = s\<lparr>log := log s @ [e]\<rparr>"

definition add_call :: "driver_call \<Rightarrow> scraper \<Rightarrow> scraper" where
  "add_call c s = s\<lparr>calls := calls s @ [c]\<rparr>"

definition output_dir :: string where
  "output_dir = ''presidential_documents''"

subsection \<open>convert_date_format\<close>

record date =
  year :: nat
  month :: nat
  day :: nat

text \<open>The month names of the C locale, lower-cased, as \<open>%B\<close> matches them.\<close>

definition month_names :: "string list" where
  "month_names = [''january'', ''february'', ''march'', ''april'', ''may'', ''june'', ''july'',
     ''august'', ''september'', ''october'', ''november'', ''december'']"

text \<open>
  \<open>datetime.strptime(data_string, '%B %d, %Y')\<close>. The format compiles to the regular
  expression
  \<^verbatim>\<open>(?P<B>january|...|december)\s+(?P<d>3[0-1]|[1-2]\d|0[1-9]|[1-9]| [1-9]),\s+(?P<Y>\d\d\d\d)\<close>
  matched at the start of the string ignoring case; the match must reach the end of the
  string, and the year, month and day found must be a date of the calendar
  (\<open>datetime.date(year, month, day)\<close>), else \<open>ValueError\<close> is raised: the only
  exception \<open>strptime\<close> raises on a \<open>str\<close>, and \<open>None\<close> in the model. No month name
  is the beginning of another, so the order of the alternatives does not matter.
\<close>

text \<open>\<open>(?P<B>...)\<close>: the month's number and the rest of the string.\<close>

fun match_month_from :: "nat \<Rightarrow> string list \<Rightarrow> string \<Rightarrow> (nat \<times> string) option" where
  "match_month_from k [] s = None"
| "match_month_from k (name # names) s =
     (if py_lower (take (length name) s) = name then Some (k, drop (length name) s)
      else match_month_from (Suc k) names s)"

definition match_month :: "string \<Rightarrow> (nat \<times> string) option" where
  "match_month s = match_month_from 1 month_names s"

text \<open>\<open>\s+\<close>: one or more whitespace characters.\<close>

definition match_spaces :: "string \<Rightarrow> string option" where
  "match_spaces s = (case s of [] \<Rightarrow> None
     | c # cs \<Rightarrow> if py_isspace c then Some (dropWhile py_isspace cs) else None)"

text \<open>\<open>3[0-1]|[1-2]\d|0[1-9]\<close>: the two-digit days.\<close>

definition two_digit_day :: "char \<Rightarrow> char \<Rightarrow> bool" where
  "two_digit_day a b =
     ((a = CHR ''3'' \<and> (b = CHR ''0'' \<or> b = CHR ''1''))
      \<or> ((a = CHR ''1'' \<or> a = CHR ''2'') \<and> is_digit b)
      \<or> (a = CHR ''0'' \<and> is_digit b \<and> b \<noteq> CHR ''0''))"

text \<open>\<open>[1-9]\<close>.\<close>

definition one_digit_day :: "char \<Rightarrow> bool" where
  "one_digit_day a = (is_digit a \<and> a \<noteq> CHR ''0'')"

text \<open>
  \<open>(?P<d>...)\<close> after the whitespace: the day and the rest of the string. (The last
  alternative, a space and a digit, takes its space from the whitespace before it.)
\<close>

definition match_day :: "string \<Rightarrow> (nat \<times> string) option" where
  "match_day s = (case s of
       a # b # rest \<Rightarrow>
         if two_digit_day a b then Some (int_of_digits [a, b], rest)
         else if one_digit_day a then Some (digit_val a, b # rest)
         else None
     | [a] \<Rightarrow> if one_digit_day a then Some (digit_val a, []) else None
     | [] \<Rightarrow> None)"

text \<open>The literal comma.\<close>

definition match_comma :: "string \<Rightarrow> string option" where
  "match_comma s = (case s of [] \<Rightarrow> None | c # cs \<Rightarrow> if c = CHR '','' then Some cs else None)"

text \<open>\<open>(?P<Y>\d\d\d\d)\<close>: the year and the rest of the string.\<close>

definition match_year :: "string \<Rightarrow> (nat \<times> string) option" where
  "match_year s =
     (if 4 \<le> length s \<and> list_all is_digit (take 4 s)
      then Some (int_of_digits (take 4 s), drop 4 s) else None)"

definition is_leap :: "nat \<Rightarrow> bool" where
  "is_leap y = (y mod 4 = 0 \<and> (y mod 100 \<noteq> 0 \<or> y mod 400 = 0))"

definition days_in_month :: "nat \<Rightarrow> nat \<Rightarrow> nat" where
  "days_in_month y m =
     (if m = 2 then (if is_leap y then 29 else 28)
      else if m = 4 \<or> m = 6 \<or> m = 9 \<or> m = 11 then 30 else 31)"

text \<open>What \<open>datetime.date(y, m, d)\<close> accepts: the years 1..9999, and a day of the month.\<close>

definition valid_date :: "nat \<Rightarrow> nat \<Rightarrow> nat \<Rightarrow> bool" where
  "valid_date y m d =
     (1 \<le> y \<and> y \<le> 9999 \<and> 1 \<le> m \<and> m \<le> 12 \<and> 1 \<le> d \<and> d \<le> days_in_month y m)"

definition strptime :: "string \<Rightarrow> date option" where
  "strptime data_string =
     (case match_month data_string of None \<Rightarrow> None
      | Some (m, r1) \<Rightarrow>
     (case match_spaces r1 of None \<Rightarrow> None
      | Some r2 \<Rightarrow>
     (case match_day r2 of None \<Rightarrow> None
      | Some (d, r3) \<Rightarrow>
     (case match_comma r3 of None \<Rightarrow> None
      | Some r4 \<Rightarrow>
     (case match_spaces r4 of None \<Rightarrow> None
      | Some r5 \<Rightarrow>
     (case match_year r5 of None \<Rightarrow> None
      | Some (y, r6) \<Rightarrow>
         if r6 \<noteq> [] then None
         else if valid_date y m d then Some \<lparr>year = y, month = m, day = d\<rparr>
         else None))))))"

text \<open>
  \<open>date_obj.strftime('%Y-%m-%d')\<close>: month and day have two digits; the year has four
  where the platform pads it, and as many as it needs otherwise.
\<close>

definition strftime :: "bool \<Rightarrow> date \<Rightarrow> string" where
  "strftime pads d =
     (if pads then zfill 4 (str_nat (year d)) else str_nat (year d))
     @ ''-'' @ zfill 2 (str_nat (month d)) @ ''-'' @ zfill 2 (str_nat (day d))"

text \<open>The result and the scraper with what was logged. No path raises.\<close>

definition convert_date_format :: "scraper \<Rightarrow> string \<Rightarrow> string \<times> scraper" where
  "convert_date_format self date_str =
     (case strptime date_str of
        Some date_obj \<Rightarrow> (strftime (libc_pads_year self) date_obj, self)
      | None \<Rightarrow> (''0000-00-00'', add_log (Error_parsing_date date_str ValueError) self))"

subsection \<open>sanitize_filename\<close>

text \<open>The character class \<open>[<>:"/\\|?*]\<close> of the regular expression.\<close>

definition invalid_filename_chars :: "char list" where
  "invalid_filename_chars =
     [CHR ''<'', CHR ''>'', CHR '':'', DQUOTE, CHR ''/'', BACKSLASH, CHR ''|'', CHR ''?'', CHR ''*'']"

text \<open>\<open>re.sub(r'[<>:"/\\|?*]', '_', filename)\<close>: every character of the class becomes
  an underscore.\<close>

definition re_sub_invalid :: "string \<Rightarrow> string" where
  "re_sub_invalid s = map (\<lambda>c. if c \<in> set invalid_filename_chars then CHR ''_'' else c) s"

definition sanitize_filename :: "string \<Rightarrow> string" where
  "sanitize_filename filename =
     (let sanitized = re_sub_invalid filename;
          sanitized = replace_char CR (CHR '' '') (replace_char LF (CHR '' '') sanitized)
      in if length sanitized > 240 then take 240 sanitized else sanitized)"

subsection \<open>What the browser and the file system answer\<close>

text \<open>
  The browser, the site and the disk are outside the program. A run is described by what
  each call of the program would return (or raise) when the program makes it.
\<close>

text \<open>\<open>open(filepath, 'w', encoding='utf-8')\<close> and the \<open>k\<close>-th \<open>f.write\<close> after it.\<close>

record file_io =
  open_file :: "exn + unit"
  write_file :: "nat \<Rightarrow> exn + unit"

text \<open>
  A document page: the wait for the element of class \<open>field-docs-content\<close>, the text
  of the element of class \<open>date-display-single\<close>, the text of the content element, and
  the writing of the file.
\<close>

record document_page =
  wait_content :: "exn + unit"
  date_text :: "exn + string"
  content_text :: "exn + string"
  io :: file_io

text \<open>
  A link of a listing page: its \<open>text\<close>, \<open>click()\<close>, the page it opens,
  \<open>driver.back()\<close> afterwards, and the \<open>driver.get\<close> of the handler that reloads the
  listing.
\<close>

record link =
  text_of :: "exn + string"
  click :: "exn + unit"
  page :: document_page
  driver_back :: "exn + unit"
  driver_reload :: "exn + unit"

text \<open>
  A listing page: the wait for the links, finding the link titled "Go to next page",
  and clicking it.
\<close>

record listing_page =
  links :: "exn + link list"
  next_link :: "exn + unit"
  next_click :: "exn + unit"

text \<open>The site: \<open>driver.get(base_url)\<close>, the listing pages in turn, and \<open>driver.quit()\<close>.\<close>

record site =
  get_base :: "exn + unit"
  pages :: "listing_page list"
  driver_quit :: "exn + unit"

subsection \<open>extract_and_save_document\<close>

text \<open>
  The bytes of a string in UTF-8, the encoding the file is opened with: a character
  below 128 is one byte, a character from 128 to 255 is two.
\<close>

definition utf8_char :: "char \<Rightarrow> char list" where
  "utf8_char c =
     (let n = (of_char c :: nat)
      in if n < 128 then [c] else [char_of (192 + n div 64), char_of (128 + n mod 64)])"

definition utf8_encode :: "string \<Rightarrow> char list" where
  "utf8_encode s = concat (map utf8_char s)"

text \<open>
  The \<open>with open(...) as f\<close> block: the file is created or truncated, then the pieces are
  written in turn, encoded. The first failure ends the block and is raised.
\<close>

fun write_pieces ::
  "(nat \<Rightarrow> exn + unit) \<Rightarrow> nat \<Rightarrow> string \<Rightarrow> string list \<Rightarrow> (string \<rightharpoonup> string)
     \<Rightarrow> exn option \<times> (string \<rightharpoonup> string)" where
  "write_pieces w k path [] fs = (None, fs)"
| "write_pieces w k path (x # xs) fs =
     (case w k of
        Inl e \<Rightarrow> (Some e, fs)
      | Inr _ \<Rightarrow> write_pieces w (Suc k) path xs
                  (fs(path \<mapsto> (case fs path of None \<Rightarrow> [] | Some old \<Rightarrow> old) @ utf8_encode x)))"

definition save_file ::
  "file_io \<Rightarrow> string \<Rightarrow> string list \<Rightarrow> scraper \<Rightarrow> exn option \<times> scraper" where
  "save_file fio path pieces s =
     (case open_file fio of
        Inl e \<Rightarrow> (Some e, s)
      | Inr _ \<Rightarrow>
          (case write_pieces (write_file fio) 0 path pieces ((disk s)(path \<mapsto> [])) of
             (r, fs) \<Rightarrow> (r, s\<lparr>disk := fs\<rparr>)))"

text \<open>
  The two \<open>except\<close> clauses of the outer \<open>try\<close>: a timeout and any other
  \<open>Exception\<close> are logged and swallowed; anything else is raised further.
\<close>

definition extract_except :: "exn \<Rightarrow> scraper \<Rightarrow> exn option \<times> scraper" where
  "extract_except e s =
     (if e = TimeoutException then (None, add_log Timeout_waiting_for_document_content s)
      else if is_Exception e then (None, add_log (Error_saving_document e) s)
      else (Some e, s))"

text \<open>
  The inner \<open>try\<close> for the metadata: the date as shown and the formatted date, or
  the exception that leaves the block.
\<close>

definition get_date :: "document_page \<Rightarrow> scraper \<Rightarrow> exn + (string \<times> string \<times> scraper)" where
  "get_date p s =
     (case date_text p of
        Inr t \<Rightarrow>
          (let date = py_strip t;
               (formatted_date, s') = convert_date_format s date
           in Inr (date, formatted_date, s'))
      | Inl e \<Rightarrow>
          if e = NoSuchElementException then Inr (''NO_DATE'', ''0000-00-00'', s)
          else Inl e)"

text \<open>The inner \<open>try\<close> for the main content.\<close>

definition get_content :: "document_page \<Rightarrow> exn + string" where
  "get_content p =
     (case content_text p of
        Inr t \<Rightarrow> Inr t
      | Inl e \<Rightarrow> if e = NoSuchElementException then Inr ''NO CONTENT FOUND'' else Inl e)"

text \<open>The four strings written to the file, in order.\<close>

definition file_pieces :: "string \<Rightarrow> string \<Rightarrow> string \<Rightarrow> string list" where
  "file_pieces date link_text content =
     [''Date: '' @ date @ [LF],
      ''Title: '' @ link_text @ [LF],
      replicate 80 (CHR ''='') @ [LF, LF],
      content]"

text \<open>
  The result is the exception that leaves the method, if any, and the scraper
  afterwards.
\<close>

definition extract_and_save_document ::
  "scraper \<Rightarrow> string \<Rightarrow> document_page \<Rightarrow> exn option \<times> scraper" where
  "extract_and_save_document self link_text p =
     (case wait_content p of
        Inl e \<Rightarrow> extract_except e self
      | Inr _ \<Rightarrow>
     (case get_date p self of
        Inl e \<Rightarrow> extract_except e self
      | Inr (date, formatted_date, s1) \<Rightarrow>
          (let filename = formatted_date @ ''_'' @ sanitize_filename link_text @ ''.txt'';
               filepath = path_join output_dir filename
           in case get_content p of
                Inl e \<Rightarrow> extract_except e s1
              | Inr content \<Rightarrow>
                  (case save_file (io p) filepath (file_pieces date link_text content) s1 of
                     (Some e, s2) \<Rightarrow> extract_except e s2
                   | (None, s2) \<Rightarrow> (None, add_log (Saved_document_to filename) s2)))))"

subsection \<open>get_document_links, go_to_next_page, cleanup\<close>

definition get_document_links :: "scraper \<Rightarrow> listing_page \<Rightarrow> (exn + link list) \<times> scraper" where
  "get_document_links self p =
     (case links p of
        Inr ls \<Rightarrow> (Inr ls, self)
      | Inl e \<Rightarrow>
          if e = TimeoutException
          then (Inr [], add_log Timeout_waiting_for_document_links self)
          else (Inl e, self))"

text \<open>The \<open>except NoSuchElementException\<close> clause covers the click as well.\<close>

definition go_to_next_page :: "scraper \<Rightarrow> listing_page \<Rightarrow> (exn + bool) \<times> scraper" where
  "go_to_next_page self p =
     (case next_link p of
        Inl e \<Rightarrow>
          if e = NoSuchElementException then (Inr False, add_log No_more_pages_to_process self)
          else (Inl e, self)
      | Inr _ \<Rightarrow>
          (let s1 = add_call Click_next self
           in case next_click p of
                Inl e \<Rightarrow>
                  if e = NoSuchElementException
                  then (Inr False, add_log No_more_pages_to_process s1)
                  else (Inl e, s1)
              | Inr _ \<Rightarrow> (Inr True, s1)))"

definition cleanup :: "scraper \<Rightarrow> site \<Rightarrow> exn option \<times> scraper" where
  "cleanup self st =
     (let s1 = add_call Quit self
      in case driver_quit st of
           Inr _ \<Rightarrow> (None, s1)
         | Inl e \<Rightarrow>
             if is_Exception e then (None, add_log (Error_during_cleanup e) s1)
             else (Some e, s1))"

subsection \<open>start_scraping\<close>

text \<open>The body of the \<open>try\<close> inside the \<open>for\<close> loop, for one link.\<close>

definition visit_link :: "scraper \<Rightarrow> link \<Rightarrow> exn option \<times> scraper" where
  "visit_link self l =
     (case text_of l of
        Inl e \<Rightarrow> (Some e, self)
      | Inr t \<Rightarrow>
          (let link_text = py_strip t;
               s1 = add_call Click_link self
           in case click l of
                Inl e \<Rightarrow> (Some e, s1)
              | Inr _ \<Rightarrow>
                  (case extract_and_save_document s1 link_text (page l) of
                     (Some e, s2) \<Rightarrow> (Some e, s2)
                   | (None, s2) \<Rightarrow>
                       (let s3 = add_call Back s2
                        in case driver_back l of
                             Inl e \<Rightarrow> (Some e, s3)
                           | Inr _ \<Rightarrow> (None, s3)))))"

text \<open>
  One turn of the \<open>for\<close> loop: the \<open>try\<close> and its \<open>except Exception\<close>, which logs,
  reloads the listing at the current page number and goes on. An exception of the
  reload itself leaves the loop.
\<close>

definition process_link ::
  "string \<Rightarrow> nat \<Rightarrow> scraper \<Rightarrow> link \<Rightarrow> exn option \<times> scraper" where
  "process_link base_url current_page self l =
     (case visit_link self l of
        (None, s1) \<Rightarrow> (None, s1)
      | (Some e, s1) \<Rightarrow>
          if is_Exception e
          then (let s2 = add_log (Error_processing_document e) s1;
                    s3 = add_call (Get (base_url @ ''?page='' @ str_nat current_page)) s2
                in case driver_reload l of
                     Inl e' \<Rightarrow> (Some e', s3)
                   | Inr _ \<Rightarrow> (None, s3))
          else (Some e, s1))"

fun process_links ::
  "string \<Rightarrow> nat \<Rightarrow> scraper \<Rightarrow> link list \<Rightarrow> exn option \<times> scraper" where
  "process_links base_url current_page self [] = (None, self)"
| "process_links base_url current_page self (l # ls) =
     (case process_link base_url current_page self l of
        (Some e, s1) \<Rightarrow> (Some e, s1)
      | (None, s1) \<Rightarrow> process_links base_url current_page s1 ls)"

text \<open>
  The \<open>while True\<close> loop. It can run for ever on a site whose every page has a next
  page; the run is described by the listing pages in the order visited, and the result
  is \<open>None\<close> when the loop asks for a page beyond those given.
\<close>

fun scrape_pages ::
  "string \<Rightarrow> nat \<Rightarrow> scraper \<Rightarrow> listing_page list \<Rightarrow> (exn option \<times> scraper) option" where
  "scrape_pages base_url current_page self [] = None"
| "scrape_pages base_url current_page self (p # ps) =
     (let s0 = add_log (Processing_page current_page) self
      in case get_document_links s0 p of
           (Inl e, s1) \<Rightarrow> Some (Some e, s1)
         | (Inr document_links, s1) \<Rightarrow>
             (case process_links base_url current_page s1 document_links of
                (Some e, s2) \<Rightarrow> Some (Some e, s2)
              | (None, s2) \<Rightarrow>
                  (case go_to_next_page s2 p of
                     (Inl e, s3) \<Rightarrow> Some (Some e, s3)
                   | (Inr went, s3) \<Rightarrow>
                       if \<not> went then Some (None, s3)
                       else scrape_pages base_url (Suc current_page) s3 ps)))"

text \<open>The body of the outer \<open>try\<close>.\<close>

definition scrape_body ::
  "string \<Rightarrow> scraper \<Rightarrow> site \<Rightarrow> (exn option \<times> scraper) option" where
  "scrape_body base_url self st =
     (let s0 = add_call (Get base_url) self
      in case get_base st of
           Inl e \<Rightarrow> Some (Some e, s0)
         | Inr _ \<Rightarrow> scrape_pages base_url 1 s0 (pages st))"

text \<open>The \<open>except Exception\<close> clause of the outer \<open>try\<close>.\<close>

definition fatal_except :: "exn option \<times> scraper \<Rightarrow> exn option \<times> scraper" where
  "fatal_except r =
     (case r of
        (None, s) \<Rightarrow> (None, s)
      | (Some e, s) \<Rightarrow> if is_Exception e then (None, add_log (Fatal_error e) s) else (Some e, s))"

text \<open>
  \<open>try\<close>, \<open>except\<close> and \<open>finally\<close>: \<open>cleanup\<close> runs after the body however it
  ended; an exception of \<open>cleanup\<close> replaces the one that was on its way out.
\<close>

definition start_scraping ::
  "scraper \<Rightarrow> string \<Rightarrow> site \<Rightarrow> (exn option \<times> scraper) option" where
  "start_scraping self base_url st =
     (case scrape_body base_url self st of
        None \<Rightarrow> None
      | Some r \<Rightarrow>
          (case fatal_except r of
             (pending, s1) \<Rightarrow>
               (case cleanup s1 st of
                  (Some e, s2) \<Rightarrow> Some (Some e, s2)
                | (None, s2) \<Rightarrow> Some (pending, s2))))"

section \<open>The text splitter\<close>

text \<open>
  Both programs split text with \<open>RecursiveCharacterTextSplitter(chunk_size=...,
  chunk_overlap=...)\<close> of the LangChain text-splitters library and pass nothing else, so
  the splitter runs with the library's defaults: the separators \<open>"\n\n"\<close>,
  \<open>"\n"\<close>, \<open>" "\<close>, \<open>""\<close> tried in this order, taken literally, each kept at
  the start of the piece that follows it, \<open>len\<close> as the length function, and chunks
  stripped of surrounding whitespace. The definitions follow the library's functions
  \<open>_split_text_with_regex\<close>, \<open>TextSplitter._join_docs\<close>,
  \<open>TextSplitter._merge_splits\<close> and \<open>RecursiveCharacterTextSplitter._split_text\<close>.
\<close>

text \<open>
  The first occurrence of a non-empty \<open>sep\<close> in a text: the text before it and the
  text after it.
\<close>

fun find_sep :: "string \<Rightarrow> string \<Rightarrow> (string \<times> string) option" where
  "find_sep sep [] = None"
| "find_sep sep (c # cs) =
     (if startswith (c # cs) sep then Some ([], drop (length sep) (c # cs))
      else (case find_sep sep cs of None \<Rightarrow> None | Some (a, b) \<Rightarrow> Some (c # a, b)))"

lemma find_sep_shorter:
  "find_sep sep str = Some (a, b) \<Longrightarrow> sep \<noteq> [] \<Longrightarrow> length b < length str"
proof (induction str arbitrary: a b)
  case Nil
  then show ?case by simp
next
  case (Cons c cs)
  show ?case
  proof (cases "startswith (c # cs) sep")
    case True
    with Cons.prems show ?thesis by (cases sep) auto
  next
    case False
    with Cons.prems obtain a' where "find_sep sep cs = Some (a', b)"
      by (auto split: option.splits)
    from Cons.IH [OF this Cons.prems(2)] show ?thesis by simp
  qed
qed

text \<open>
  \<open>re.split\<close> on a literal, non-empty separator: the texts between its occurrences,
  found from left to right.
\<close>

function re_split :: "string \<Rightarrow> string \<Rightarrow> string list" where
  "re_split sep text =
     (if sep = [] then [text]
      else (case find_sep sep text of
              None \<Rightarrow> [text]
            | Some (a, b) \<Rightarrow> a # re_split sep b))"
  by pat_completeness auto
termination
  by (relation "measure (\<lambda>(sep, text). length text)") (auto dest: find_sep_shorter)

declare re_split.simps [simp del]

text \<open>
  \<open>_split_text_with_regex(text, separator, keep_separator=True)\<close>: with a separator,
  the text before its first occurrence, then each later piece with the separator in
  front; with the empty separator, the characters. Empty pieces are dropped.
\<close>

definition split_text_with_regex :: "string \<Rightarrow> string \<Rightarrow> string list" where
  "split_text_with_regex text separator =
     (let splits =
        (if separator \<noteq> []
         then (case re_split separator text of
                 [] \<Rightarrow> []
               | t0 # ts \<Rightarrow> t0 # map (\<lambda>t. separator @ t) ts)
         else map (\<lambda>c. [c]) text)
      in filter (\<lambda>s. s \<noteq> []) splits)"

text \<open>
  \<open>_join_docs\<close>: the pieces joined and stripped; the empty list stands for the result
  \<open>None\<close>, which the caller does not keep.
\<close>

definition join_docs :: "string list \<Rightarrow> string \<Rightarrow> string list" where
  "join_docs docs separator =
     (let text = py_strip (join separator docs) in if text = [] then [] else [text])"

text \<open>
  The \<open>while\<close> loop of \<open>_merge_splits\<close> that drops pieces from the front of
  \<open>current_doc\<close>. \<open>current_doc[0]\<close> on an empty list raises \<open>IndexError\<close>.
\<close>

function pop_front ::
  "nat \<Rightarrow> nat \<Rightarrow> int \<Rightarrow> int \<Rightarrow> string list \<Rightarrow> int \<Rightarrow> exn + (string list \<times> int)" where
  "pop_front chunk_size chunk_overlap separator_len len current_doc total_len =
     (if total_len > int chunk_overlap
         \<or> (total_len + len + (if length current_doc > 0 then separator_len else 0) > int chunk_size
            \<and> total_len > 0)
      then (case current_doc of
              [] \<Rightarrow> Inl IndexError
            | x # xs \<Rightarrow>
                pop_front chunk_size chunk_overlap separator_len len xs
                  (total_len - (int (length x) + (if length current_doc > 1 then separator_len else 0))))
      else Inr (current_doc, total_len))"
  by pat_completeness auto
termination
  by (relation "measure (\<lambda>(cs, co, sl, l, cur, t). length cur)") auto

declare pop_front.simps [simp del]

text \<open>
  One turn of the \<open>for\<close> loop of \<open>_merge_splits\<close>, for the split \<open>d\<close>, on
  \<open>docs\<close>, \<open>current_doc\<close> and \<open>total\<close> (here \<open>total_len\<close>) as they stand.
\<close>

definition merge_step ::
  "nat \<Rightarrow> nat \<Rightarrow> string \<Rightarrow> string \<Rightarrow> string list \<times> string list \<times> int
     \<Rightarrow> exn + (string list \<times> string list \<times> int)" where
  "merge_step chunk_size chunk_overlap separator d st =
     (case st of (docs, current_doc, total_len) \<Rightarrow>
      (let separator_len = int (length separator);
           len = int (length d)
       in case (if total_len + len + (if length current_doc > 0 then separator_len else 0)
                     > int chunk_size
                   \<and> length current_doc > 0
                then (case pop_front chunk_size chunk_overlap separator_len len
                             current_doc total_len of
                        Inl e \<Rightarrow> Inl e
                      | Inr (current_doc', total_len') \<Rightarrow>
                          Inr (docs @ join_docs current_doc separator, current_doc', total_len'))
                else Inr (docs, current_doc, total_len)) of
            Inl e \<Rightarrow> Inl e
          | Inr (docs1, current_doc1, total_len1) \<Rightarrow>
              Inr (docs1, current_doc1 @ [d],
                   total_len1 + len
                   + (if length (current_doc1 @ [d]) > 1 then separator_len else 0))))"

text \<open>The \<open>for\<close> loop over the splits still to come.\<close>

fun merge_loop ::
  "nat \<Rightarrow> nat \<Rightarrow> string \<Rightarrow> string list \<Rightarrow> string list \<times> string list \<times> int
     \<Rightarrow> exn + (string list \<times> string list \<times> int)" where
  "merge_loop chunk_size chunk_overlap separator [] st = Inr st"
| "merge_loop chunk_size chunk_overlap separator (d # ds) st =
     (case merge_step chunk_size chunk_overlap separator d st of
        Inl e \<Rightarrow> Inl e
      | Inr st' \<Rightarrow> merge_loop chunk_size chunk_overlap separator ds st')"

text \<open>\<open>_merge_splits\<close>: the loop from empty lists, then the last document.\<close>

definition merge_splits :: "nat \<Rightarrow> nat \<Rightarrow> string list \<Rightarrow> string \<Rightarrow> exn + string list" where
  "merge_splits chunk_size chunk_overlap splits separator =
     (case merge_loop chunk_size chunk_overlap separator splits ([], [], 0) of
        Inl e \<Rightarrow> Inl e
      | Inr (docs, current_doc, total_len) \<Rightarrow> Inr (docs @ join_docs current_doc separator))"

text \<open>
  The first loop of \<open>_split_text\<close>: the first separator that is empty or occurs in
  the text, with the separators after it (none after the empty one); the last separator
  and no further ones when none occurs. \<open>separators[-1]\<close> on an empty list raises
  \<open>IndexError\<close>.
\<close>

fun choose_from :: "string list \<Rightarrow> string \<Rightarrow> (string \<times> string list) option" where
  "choose_from [] text = None"
| "choose_from (s # ss) text =
     (if s = [] then Some (s, [])
      else if find_sep s text \<noteq> None then Some (s, ss)
      else choose_from ss text)"

definition choose_separator :: "string list \<Rightarrow> string \<Rightarrow> exn + (string \<times> string list)" where
  "choose_separator separators text =
     (if separators = [] then Inl IndexError
      else (case choose_from separators text of
              Some r \<Rightarrow> Inr r
            | None \<Rightarrow> Inr (last separators, [])))"

lemma choose_from_shorter:
  "choose_from separators text = Some (s, new_separators)
     \<Longrightarrow> length new_separators < length separators"
  by (induction separators) (auto split: if_splits)

lemma choose_separator_shorter:
  "choose_separator separators text = Inr (s, new_separators)
     \<Longrightarrow> length new_separators < length separators"
  by (auto simp: choose_separator_def split: if_splits option.splits dest: choose_from_shorter)

text \<open>
  \<open>_split_text(text, separators)\<close>, and its second loop over the splits still to come
  with \<open>_good_splits\<close> and \<open>final_chunks\<close> as they stand. With the separators kept,
  the pieces are merged with the empty separator.
\<close>

function split_text_rec :: "nat \<Rightarrow> nat \<Rightarrow> string list \<Rightarrow> string \<Rightarrow> exn + string list"
  and split_loop ::
    "nat \<Rightarrow> nat \<Rightarrow> string list \<Rightarrow> string list \<Rightarrow> string list \<Rightarrow> string list
       \<Rightarrow> exn + string list"
where
  "split_text_rec chunk_size chunk_overlap separators text =
     (case choose_separator separators text of
        Inl e \<Rightarrow> Inl e
      | Inr (separator, new_separators) \<Rightarrow>
          split_loop chunk_size chunk_overlap new_separators
            (split_text_with_regex text separator) [] [])"
| "split_loop chunk_size chunk_overlap new_separators [] good_splits final_chunks =
     (if good_splits \<noteq> []
      then (case merge_splits chunk_size chunk_overlap good_splits [] of
              Inl e \<Rightarrow> Inl e
            | Inr merged_text \<Rightarrow> Inr (final_chunks @ merged_text))
      else Inr final_chunks)"
| "split_loop chunk_size chunk_overlap new_separators (s # ss) good_splits final_chunks =
     (if length s < chunk_size
      then split_loop chunk_size chunk_overlap new_separators ss (good_splits @ [s]) final_chunks
      else (case (if good_splits \<noteq> []
                  then merge_splits chunk_size chunk_overlap good_splits []
                  else Inr []) of
              Inl e \<Rightarrow> Inl e
            | Inr merged_text \<Rightarrow>
                if new_separators = []
                then split_loop chunk_size chunk_overlap new_separators ss []
                       (final_chunks @ merged_text @ [s])
                else (case split_text_rec chunk_size chunk_overlap new_separators s of
                        Inl e \<Rightarrow> Inl e
                      | Inr other_info \<Rightarrow>
                          split_loop chunk_size chunk_overlap new_separators ss []
                            (final_chunks @ merged_text @ other_info))))"
  by pat_completeness auto
termination
  by (relation "inv_image (less_than <*lex*> less_than)
        (\<lambda>x. case x of
           Inl (cs, co, separators, text) \<Rightarrow> (length separators, 0)
         | Inr (cs, co, new_separators, splits, good, final) \<Rightarrow>
             (length new_separators, Suc (length splits)))")
     (auto dest: choose_separator_shorter)

declare split_text_rec.simps [simp del]

definition default_separators :: "string list" where
  "default_separators = [[LF, LF], [LF], '' '', []]"

text \<open>
  The splitter's constructor refuses an overlap larger than the chunk size;
  \<open>split_text\<close> then starts from the default separators.
\<close>

definition split_text :: "nat \<Rightarrow> nat \<Rightarrow> string \<Rightarrow> exn + string list" where
  "split_text chunk_size chunk_overlap text =
     (if chunk_overlap > chunk_size then Inl ValueError
      else split_text_rec chunk_size chunk_overlap default_separators text)"

text \<open>
  \<open>split_documents\<close>: every document's text is split, and each chunk becomes a
  document with the metadata of the one it came from.
\<close>

record document =
  page_content :: string
  metadata_source :: string

fun split_each :: "nat \<Rightarrow> nat \<Rightarrow> document list \<Rightarrow> exn + document list" where
  "split_each chunk_size chunk_overlap [] = Inr []"
| "split_each chunk_size chunk_overlap (doc # docs) =
     (case split_text_rec chunk_size chunk_overlap default_separators (page_content doc) of
        Inl e \<Rightarrow> Inl e
      | Inr chunks \<Rightarrow>
          (case split_each chunk_size chunk_overlap docs of
             Inl e \<Rightarrow> Inl e
           | Inr rest \<Rightarrow> Inr (map (\<lambda>chunk. doc\<lparr>page_content := chunk\<rparr>) chunks @ rest)))"

definition split_documents :: "nat \<Rightarrow> nat \<Rightarrow> document list \<Rightarrow> exn + document list" where
  "split_documents chunk_size chunk_overlap documents =
     (if chunk_overlap > chunk_size then Inl ValueError
      else split_each chunk_size chunk_overlap documents)"

section \<open>Ollama_RAG.py: DocxRAGSystem\<close>

subsection \<open>What is outside the program\<close>

text \<open>
  \<open>os_walk\<close> is what \<open>os.walk\<close> yields for a folder (root, directories, files);
  \<open>docx2txt_load\<close> is \<open>Docx2txtLoader(file_path).load()\<close>; \<open>import_chroma\<close> is
  the import of the vector store's module; \<open>from_documents\<close> is
  \<open>Chroma.from_documents\<close>, which embeds and stores the splits; \<open>llm_invoke\<close> is
  \<open>OllamaLLM(model=model_name).invoke(prompt)\<close>.
\<close>

record world =
  os_walk :: "string \<Rightarrow> (string \<times> string list \<times> string list) list"
  docx2txt_load :: "string \<Rightarrow> exn + document list"
  import_chroma :: "exn + unit"
  from_documents :: "document list \<Rightarrow> exn + unit"
  llm_invoke :: "string \<Rightarrow> string \<Rightarrow> exn + string"

text \<open>What the program prints, one constructor per \<open>print\<close> of the source.\<close>

datatype out_line =
    Loaded_documents nat
  | Chroma_not_available
  | No_retriever_available
  | Response string
  | Error_processing_query exn
  | Error_initializing_RAG_system exn

datatype vector_store = Chroma_store "document list"

datatype retriever = Retriever vector_store

text \<open>
  The chain: the function \<open>simple_chain\<close> with the template and the context it closes
  over, or the \<open>RunnableSequence\<close> built from the retriever and the prompt.
\<close>

datatype chain = Simple_chain string string | Runnable_sequence retriever string

subsection \<open>_load_docx_documents\<close>

text \<open>The inner loop over the files of one directory, and the outer loop over the walk.\<close>

fun load_files :: "world \<Rightarrow> string \<Rightarrow> string list \<Rightarrow> document list \<Rightarrow> exn + document list" where
  "load_files w root [] documents = Inr documents"
| "load_files w root (filename # files) documents =
     (if endswith filename ''.docx''
      then (case docx2txt_load w (path_join root filename) of
              Inl e \<Rightarrow> Inl e
            | Inr docs \<Rightarrow> load_files w root files (documents @ docs))
      else load_files w root files documents)"

fun load_walk ::
  "world \<Rightarrow> (string \<times> string list \<times> string list) list \<Rightarrow> document list
     \<Rightarrow> exn + document list" where
  "load_walk w [] documents = Inr documents"
| "load_walk w ((root, dirs, files) # rest) documents =
     (case load_files w root files documents of
        Inl e \<Rightarrow> Inl e
      | Inr documents' \<Rightarrow> load_walk w rest documents')"

text \<open>The result, and what was printed.\<close>

definition load_docx_documents ::
  "world \<Rightarrow> string \<Rightarrow> (exn + document list) \<times> out_line list" where
  "load_docx_documents w folder =
     (case load_walk w (os_walk w folder) [] of
        Inl e \<Rightarrow> (Inl e, [])
      | Inr documents \<Rightarrow>
          if documents = [] then (Inl ValueError, [])
          else (Inr documents, [Loaded_documents (length documents)]))"

subsection \<open>_create_vector_store\<close>

definition create_vector_store ::
  "world \<Rightarrow> nat \<Rightarrow> nat \<Rightarrow> document list \<Rightarrow> exn + vector_store" where
  "create_vector_store w csize coverlap docs =
     (case split_documents csize coverlap docs of
        Inl e \<Rightarrow> Inl e
      | Inr splits \<Rightarrow>
          (case from_documents w splits of
             Inl e \<Rightarrow> Inl e
           | Inr _ \<Rightarrow> Inr (Chroma_store splits)))"

subsection \<open>create_retrieval_chain\<close>

definition default_template :: string where
  "default_template =
      ''Use the following pieces of context to answer the question. '' @ [LF] @
      ''            If you don't know the answer, just say that you don't know, don't try to make up an answer.'' @ [LF] @
      ''            '' @ [LF] @
      ''            Context: {context}'' @ [LF] @
      ''            Question: {question}'' @ [LF] @
      ''            '' @ [LF] @
      ''            Helpful Answer:''"

text \<open>
  \<open>template.format(**kw)\<close> with keyword arguments that are strings. \<open>field\<close> is
  \<open>None\<close> in literal text and the field name read so far inside braces. Doubled
  braces stand for one; a single closing brace, an opening brace that is never closed and
  an opening brace inside a field name raise \<open>ValueError\<close>; an empty or numeric
  field name asks for a positional argument, of which there are none
  (\<open>IndexError\<close>); a name that is no keyword raises \<open>KeyError\<close>. A conversion
  (\<open>!\<close>), a format specification (\<open>:\<close>), an attribute (\<open>.\<close>) and an index
  (\<open>[\<close>) in a field are not modelled.
\<close>

definition prepend :: "string \<Rightarrow> exn + string \<Rightarrow> exn + string" where
  "prepend s r = (case r of Inl e \<Rightarrow> Inl e | Inr t \<Rightarrow> Inr (s @ t))"

fun format_from :: "(string \<times> string) list \<Rightarrow> string option \<Rightarrow> string \<Rightarrow> exn + string" where
  "format_from kw None [] = Inr []"
| "format_from kw (Some name) [] = Inl ValueError"
| "format_from kw None (c # cs) =
     (if c = CHR ''{'' then
        (case cs of
           [] \<Rightarrow> Inl ValueError
         | d # ds \<Rightarrow>
             if d = CHR ''{'' then prepend ''{'' (format_from kw None ds)
             else format_from kw (Some []) cs)
      else if c = CHR ''}'' then
        (case cs of
           [] \<Rightarrow> Inl ValueError
         | d # ds \<Rightarrow>
             if d = CHR ''}'' then prepend ''}'' (format_from kw None ds)
             else Inl ValueError)
      else prepend [c] (format_from kw None cs))"
| "format_from kw (Some name) (c # cs) =
     (if c = CHR ''}'' then
        (if name = [] \<or> list_all is_digit name then Inl IndexError
         else (case map_of kw name of
                 None \<Rightarrow> Inl KeyError
               | Some v \<Rightarrow> prepend v (format_from kw None cs)))
      else if c = CHR ''{'' then Inl ValueError
      else if c \<in> set ''!:.['' then Inl Unmodelled
      else format_from kw (Some (name @ [c])) cs)"

definition py_format :: "string \<Rightarrow> (string \<times> string) list \<Rightarrow> exn + string" where
  "py_format template kw = format_from kw None template"

text \<open>
  \<open>create_retrieval_chain()\<close> as \<open>__init__\<close> calls it, its only caller: without a
  template, so that the template is the default one. The result is the chain and what
  was printed.
\<close>

definition create_retrieval_chain ::
  "document list \<Rightarrow> retriever option \<Rightarrow> chain \<times> out_line list" where
  "create_retrieval_chain docs r =
     (let template = default_template
      in case r of
           None \<Rightarrow>
             (let context = join [LF, LF] (map page_content docs)
              in (Simple_chain template context, [No_retriever_available]))
         | Some rt \<Rightarrow> (Runnable_sequence rt template, []))"

subsection \<open>__init__\<close>

text \<open>
  The \<open>try\<close> block of the constructor: the import and the vector store, or the
  exception that leaves it.
\<close>

definition try_chroma :: "world \<Rightarrow> nat \<Rightarrow> nat \<Rightarrow> document list \<Rightarrow> exn + vector_store" where
  "try_chroma w csize coverlap docs =
     (case import_chroma w of
        Inl e \<Rightarrow> Inl e
      | Inr _ \<Rightarrow> create_vector_store w csize coverlap docs)"

text \<open>The attributes of a \<open>DocxRAGSystem\<close>.\<close>

record docx_rag_system =
  folder_path :: string
  model_name :: string
  chunk_size :: nat
  chunk_overlap :: nat
  documents :: "document list"
  vector_store :: "vector_store option"
  retriever :: "retriever option"
  chain :: chain

text \<open>The system built, or the exception raised, and what was printed.\<close>

definition init ::
  "world \<Rightarrow> string \<Rightarrow> string \<Rightarrow> nat \<Rightarrow> nat \<Rightarrow> (exn + docx_rag_system) \<times> out_line list" where
  "init w folder model csize coverlap =
     (case load_docx_documents w folder of
        (Inl e, out) \<Rightarrow> (Inl e, out)
      | (Inr docs, out) \<Rightarrow>
          (case (case try_chroma w csize coverlap docs of
                   Inr vs \<Rightarrow> Inr (Some vs, Some (Retriever vs), out)
                 | Inl e \<Rightarrow>
                     if e = ImportError then Inr (None, None, out @ [Chroma_not_available])
                     else Inl e) of
             Inl e \<Rightarrow> (Inl e, out)
           | Inr (vs, r, out1) \<Rightarrow>
               (case create_retrieval_chain docs r of
                  (ch, out2) \<Rightarrow>
                    (Inr \<lparr>folder_path = folder, model_name = model, chunk_size = csize,
                          chunk_overlap = coverlap, documents = docs, vector_store = vs,
                          retriever = r, chain = ch\<rparr>,
                     out1 @ out2))))"

subsection \<open>query\<close>

text \<open>
  \<open>self.chain(question)\<close>. The fallback chain is a function: it fills the template
  and invokes the model. A \<open>RunnableSequence\<close> is not callable: calling it raises
  \<open>TypeError\<close>.
\<close>

definition simple_chain :: "world \<Rightarrow> string \<Rightarrow> string \<Rightarrow> string \<Rightarrow> string \<Rightarrow> exn + string" where
  "simple_chain w model template context question =
     (case py_format template [(''context'', context), (''question'', question)] of
        Inl e \<Rightarrow> Inl e
      | Inr filled_template \<Rightarrow> llm_invoke w model filled_template)"

definition query :: "world \<Rightarrow> docx_rag_system \<Rightarrow> string \<Rightarrow> exn + string" where
  "query w self question =
     (case chain self of
        Simple_chain template context \<Rightarrow>
          simple_chain w (model_name self) template context question
      | Runnable_sequence r template \<Rightarrow> Inl TypeError)"

subsection \<open>main\<close>

text \<open>The parsed command line: the positional \<open>folder_path\<close> and the option \<open>--model\<close>.\<close>

record args =
  arg_folder_path :: string
  arg_model :: string

text \<open>
  What happens at the terminal: the prompt of \<open>input\<close>, a question passed to
  \<open>rag_system.query\<close>, a line printed.
\<close>

datatype event = Prompt | Query string | Print out_line

text \<open>
  The interactive loop on the lines that standard input still holds. \<open>input\<close> raises
  \<open>EOFError\<close> when there is none left. The result is the exception that leaves the
  loop, if any, and the events in order.
\<close>

fun query_loop :: "world \<Rightarrow> docx_rag_system \<Rightarrow> string list \<Rightarrow> exn option \<times> event list" where
  "query_loop w rag_system [] = (Some EOFError, [Prompt])"
| "query_loop w rag_system (line # rest) =
     (if py_lower line = ''quit'' then (None, [Prompt])
      else (case query w rag_system line of
              Inr response \<Rightarrow>
                (case query_loop w rag_system rest of
                   (r, evs) \<Rightarrow> (r, Prompt # Query line # Print (Response response) # evs))
            | Inl e \<Rightarrow>
                if is_Exception e
                then (case query_loop w rag_system rest of
                        (r, evs) \<Rightarrow> (r, Prompt # Query line # Print (Error_processing_query e) # evs))
                else (Some e, [Prompt, Query line])))"

text \<open>
  \<open>main\<close> after \<open>parse_args\<close>: the exception that leaves it, if any, and the events.
  The outer \<open>except Exception\<close> also receives what leaves the loop.
\<close>

definition main :: "world \<Rightarrow> args \<Rightarrow> string list \<Rightarrow> exn option \<times> event list" where
  "main w a stdin =
     (case init w (arg_folder_path a) ''llama3.2'' 500 100 of
        (Inl e, out) \<Rightarrow>
          if is_Exception e
          then (None, map Print out @ [Print (Error_initializing_RAG_system e)])
          else (Some e, map Print out)
      | (Inr rag_system, out) \<Rightarrow>
          (case query_loop w rag_system stdin of
             (None, evs) \<Rightarrow> (None, map Print out @ evs)
           | (Some e, evs) \<Rightarrow>
               if is_Exception e
               then (None, map Print out @ evs @ [Print (Error_initializing_RAG_system e)])
               else (Some e, map Print out @ evs)))"

section \<open>Open_AI_RAG.py\<close>

subsection \<open>load_docx_texts_from_folder\<close>

fun texts_of_files :: "world \<Rightarrow> string \<Rightarrow> string list \<Rightarrow> string \<Rightarrow> exn + string" where
  "texts_of_files w root [] all_text = Inr all_text"
| "texts_of_files w root (filename # files) all_text =
     (if endswith filename ''.docx''
      then (case docx2txt_load w (path_join root filename) of
              Inl e \<Rightarrow> Inl e
            | Inr docs \<Rightarrow>
                texts_of_files w root files
                  (all_text @ join '' '' (map page_content docs) @ [LF]))
      else texts_of_files w root files all_text)"

fun texts_of_walk ::
  "world \<Rightarrow> (string \<times> string list \<times> string list) list \<Rightarrow> string \<Rightarrow> exn + string" where
  "texts_of_walk w [] all_text = Inr all_text"
| "texts_of_walk w ((root, dirs, files) # rest) all_text =
     (case texts_of_files w root files all_text of
        Inl e \<Rightarrow> Inl e
      | Inr all_text' \<Rightarrow> texts_of_walk w rest all_text')"

definition load_docx_texts_from_folder :: "world \<Rightarrow> string \<Rightarrow> exn + string" where
  "load_docx_texts_from_folder w folder = texts_of_walk w (os_walk w folder) []"

text \<open>The script's splitter: chunks of 512 with an overlap of 128.\<close>

definition script_chunks :: "string \<Rightarrow> exn + string list" where
  "script_chunks docx_text = split_text 512 128 docx_text"

section \<open>The vocabulary of the properties\<close>

subsection \<open>Properties of sanitize_filename\<close>

text \<open>What the three replacements together do to one character.\<close>

definition sanitize_char :: "char \<Rightarrow> char" where
  "sanitize_char c = (if c \<in> set invalid_filename_chars then CHR ''_''
                         else if c = LF \<or> c = CR then CHR '' '' else c)"

subsection \<open>Which strings are dates\<close>

text \<open>The day as the format accepts it: one digit 1..9, or two digits 01..31.\<close>

definition day_digits :: "string \<Rightarrow> nat \<Rightarrow> bool" where
  "day_digits ds d =
     ((\<exists>a. ds = [a] \<and> one_digit_day a \<and> d = digit_val a)
      \<or> (\<exists>a b. ds = [a, b] \<and> two_digit_day a b \<and> d = int_of_digits [a, b]))"

text \<open>
  \<open>written_as s y m d\<close>: the string is the name of month \<open>m\<close> in any letter case,
  whitespace, the day \<open>d\<close>, a comma, whitespace, and the year \<open>y\<close> in four digits.
\<close>

definition written_as :: "string \<Rightarrow> nat \<Rightarrow> nat \<Rightarrow> nat \<Rightarrow> bool" where
  "written_as s y m d =
     (\<exists>name ws1 ds ws2 ys.
        s = name @ ws1 @ ds @ '','' @ ws2 @ ys
        \<and> 1 \<le> m \<and> m \<le> 12 \<and> py_lower name = month_names ! (m - 1)
        \<and> ws1 \<noteq> [] \<and> list_all py_isspace ws1
        \<and> day_digits ds d
        \<and> ws2 \<noteq> [] \<and> list_all py_isspace ws2
        \<and> length ys = 4 \<and> list_all is_digit ys \<and> y = int_of_digits ys)"

text \<open>
  The literal format of the specification, \<open>Month DD, YYYY\<close>: an English month name
  with its capital, one space, two digits, a comma, one space, four digits.
\<close>

definition capitalized_month_names :: "string list" where
  "capitalized_month_names = [''January'', ''February'', ''March'', ''April'', ''May'', ''June'',
     ''July'', ''August'', ''September'', ''October'', ''November'', ''December'']"

definition month_dd_yyyy :: "string \<Rightarrow> bool" where
  "month_dd_yyyy s =
     list_ex (\<lambda>name. startswith s name \<and>
                (case drop (length name) s of
                   [sp1, d1, d2, comma, sp2, y1, y2, y3, y4] \<Rightarrow>
                     sp1 = CHR '' '' \<and> is_digit d1 \<and> is_digit d2 \<and> comma = CHR '','' \<and>
                     sp2 = CHR '' '' \<and> is_digit y1 \<and> is_digit y2 \<and> is_digit y3 \<and> is_digit y4
                 | _ \<Rightarrow> False))
       capitalized_month_names"

text \<open>The date \<open>y\<close>-\<open>m\<close>-\<open>d\<close> written in the literal format.\<close>

definition in_month_dd_yyyy :: "nat \<Rightarrow> nat \<Rightarrow> nat \<Rightarrow> string" where
  "in_month_dd_yyyy y m d =
     capitalized_month_names ! (m - 1) @ '' '' @ zfill 2 (str_nat d) @ '', '' @ zfill 4 (str_nat y)"

subsection \<open>The file written for a document\<close>




subsection \<open>The browser is always closed\<close>

text \<open>
  \<open>sends s s'\<close>: from \<open>s\<close> to \<open>s'\<close> the scraper has only added commands to those
  sent, and \<open>quit\<close> is none of them.
\<close>

definition sends :: "scraper \<Rightarrow> scraper \<Rightarrow> bool" where
  "sends s s' = (\<exists>cs. calls s' = calls s @ cs \<and> Quit \<notin> set cs)"

subsection \<open>The chunks of a text\<close>

text \<open>
  The number of chunks of the specification, \<open>ceil(max(n - co, 0) / (cs - co))\<close> for a
  text of \<open>n\<close> characters, and the chunks themselves.
\<close>

definition claimed_count :: "nat \<Rightarrow> nat \<Rightarrow> nat \<Rightarrow> nat" where
  "claimed_count cs co n = (n - co + (cs - co) - 1) div (cs - co)"

definition claimed_chunks :: "nat \<Rightarrow> nat \<Rightarrow> string \<Rightarrow> string list" where
  "claimed_chunks cs co t =
     map (\<lambda>i. take cs (drop (i * (cs - co)) t)) [0..<claimed_count cs co (length t)]"

text \<open>
  The same windows by recursion, as the merging loop produces them: a window of
  \<open>cs\<close> characters, then the windows of the text from \<open>cs - co\<close> characters on;
  a text that fits is one window.
\<close>

function slide :: "nat \<Rightarrow> nat \<Rightarrow> string \<Rightarrow> string list" where
  "slide cs co t =
     (if t = [] then []
      else if length t \<le> cs \<or> cs \<le> co then [t]
      else take cs t # slide cs co (drop (cs - co) t))"
  by pat_completeness auto
termination
  by (relation "measure (\<lambda>(cs, co, t). length t)") auto

declare slide.simps [simp del]

text \<open>A character as a piece of one character.\<close>

definition single :: "char \<Rightarrow> string" where
  "single c = [c]"

subsection \<open>Ingestion\<close>

text \<open>The paths of the files of a walk that end in \<open>.docx\<close>, in the order visited.\<close>

definition docx_paths :: "(string \<times> string list \<times> string list) list \<Rightarrow> string list" where
  "docx_paths walk =
     concat (map (\<lambda>(root, dirs, files).
                    map (path_join root) (filter (\<lambda>filename. endswith filename ''.docx'') files))
                 walk)"

subsection \<open>The fallback chain\<close>

text \<open>
  The default template is three pieces of fixed text around the two fields; filling it
  puts the context and the question where the fields are.
\<close>

definition prompt_before_context :: string where
  "prompt_before_context =
      ''Use the following pieces of context to answer the question. '' @ [LF] @
      ''            If you don't know the answer, just say that you don't know, don't try to make up an answer.'' @ [LF] @
      ''            '' @ [LF] @
      ''            Context: ''"

definition prompt_between :: string where
  "prompt_between = [LF] @ ''            Question: ''"

definition prompt_after_question :: string where
  "prompt_after_question = [LF] @ ''            '' @ [LF] @ ''            Helpful Answer:''"

definition filled_prompt :: "string \<Rightarrow> string \<Rightarrow> string" where
  "filled_prompt context question =
     prompt_before_context @ context @ prompt_between @ question @ prompt_after_question"

subsection \<open>Example runs\<close>

text \<open>A scraper that has done nothing yet, on a platform that does not pad the year.\<close>

definition scraper0 :: scraper where
  "scraper0 = \<lparr>log = [], disk = Map.empty, calls = [], libc_pads_year = False\<rparr>"

text \<open>A document page on which everything is found and the file can be written.\<close>

definition page_ok :: document_page where
  "page_ok = \<lparr>wait_content = Inr (), date_text = Inr ''January 20, 2021'',
              content_text = Inr ''Fellow citizens'',
              io = \<lparr>open_file = Inr (), write_file = (\<lambda>k. Inr ())\<rparr>\<rparr>"

text \<open>
  Three links: one that works, one whose text cannot be read, and one whose document
  never shows its content.
\<close>

definition link_ok :: link where
  "link_ok = \<lparr>text_of = Inr '' Inaugural Address '', click = Inr (), page = page_ok,
              driver_back = Inr (), driver_reload = Inr ()\<rparr>"




text \<open>A last listing page with one link, and a site that has only this page.\<close>

definition listing_last :: listing_page where
  "listing_last = \<lparr>links = Inr [link_ok], next_link = Inl NoSuchElementException,
                   next_click = Inr ()\<rparr>"

definition site0 :: site where
  "site0 = \<lparr>get_base = Inr (), pages = [listing_last], driver_quit = Inr ()\<rparr>"

text \<open>
  A folder with two documents, one of them in a subfolder, and a file that is no
  document; no vector store module; a model that answers with its own name.
\<close>

definition world0 :: world where
  "world0 =
     \<lparr>os_walk = (\<lambda>folder. [(folder, [''sub''], [''a.docx'', ''notes.txt'']),
                            (folder @ ''/sub'', [], [''b.docx''])]),
      docx2txt_load = (\<lambda>path. Inr [\<lparr>page_content = ''Text of '' @ path, metadata_source = path\<rparr>]),
      import_chroma = Inl ImportError,
      from_documents = (\<lambda>splits. Inr ()),
      llm_invoke = (\<lambda>model prompt. Inr model)\<rparr>"

text \<open>The same folder without its documents.\<close>

definition world_without_docx :: world where
  "world_without_docx = world0\<lparr>os_walk := (\<lambda>folder. [(folder, [], [''notes.txt''])])\<rparr>"

text \<open>The first world with a model that answers with the prompt it was given.\<close>

definition world_echo :: world where
  "world_echo = world0\<lparr>llm_invoke := (\<lambda>model prompt. Inr prompt)\<rparr>"

text \<open>The system that \<open>__init__\<close> builds in the first world for the folder \<open>docs\<close>.\<close>

definition rag0 :: docx_rag_system where
  "rag0 = \<lparr>folder_path = ''docs'', model_name = ''llama3.2'', chunk_size = 500, chunk_overlap = 100,
           documents = [\<lparr>page_content = ''Text of docs/a.docx'', metadata_source = ''docs/a.docx''\<rparr>,
                        \<lparr>page_content = ''Text of docs/sub/b.docx'', metadata_source = ''docs/sub/b.docx''\<rparr>],
           vector_store = None, retriever = None,
           chain = Simple_chain default_template
                     (''Text of docs/a.docx'' @ [LF, LF] @ ''Text of docs/sub/b.docx'')\<rparr>"

section \<open>Facts about numbers as strings\<close>

lemma str_nat_digits: "str_nat n \<noteq> [] \<and> list_all is_digit (str_nat n)"
proof (induction n rule: str_nat.induct)
  case (1 n)
  have d: "is_digit (digit_char k)" if "k < 10" for k
    using that by (simp add: is_digit_def digit_char_def Let_def)
  show ?case
  proof (cases "n < 10")
    case True
    then show ?thesis by (subst (1 2) str_nat.simps) (simp add: d)
  next
    case False
    with 1 have "str_nat (n div 10) \<noteq> [] \<and> list_all is_digit (str_nat (n div 10))" by simp
    with False show ?thesis by (subst (1 2) str_nat.simps) (simp add: d)
  qed
qed

lemma zfill_digits: "s \<noteq> [] \<Longrightarrow> list_all is_digit s \<Longrightarrow> zfill w s \<noteq> [] \<and> list_all is_digit (zfill w s)"
  by (auto simp: zfill_def is_digit_def list_all_iff Let_def)

section \<open>Properties of sanitize_filename\<close>

lemma sanitize_char_clean: "sanitize_char c \<notin> set invalid_filename_chars \<union> {LF, CR}"
  by (simp add: sanitize_char_def invalid_filename_chars_def LF_def CR_def DQUOTE_def BACKSLASH_def)

lemma sanitize_char_fixed: "c \<notin> set invalid_filename_chars \<union> {LF, CR} \<Longrightarrow> sanitize_char c = c"
  by (simp add: sanitize_char_def)

lemma sanitize_filename_as_map:
  "sanitize_filename s = take 240 (map sanitize_char s)"
proof -
  have "(if (if (if c \<in> set invalid_filename_chars then CHR ''_'' else c) = LF then CHR '' ''
             else (if c \<in> set invalid_filename_chars then CHR ''_'' else c)) = CR then CHR '' ''
         else (if (if c \<in> set invalid_filename_chars then CHR ''_'' else c) = LF then CHR '' ''
             else (if c \<in> set invalid_filename_chars then CHR ''_'' else c))) = sanitize_char c" for c
    by (simp add: sanitize_char_def invalid_filename_chars_def LF_def CR_def DQUOTE_def BACKSLASH_def)
  then show ?thesis
    by (simp add: sanitize_filename_def re_sub_invalid_def replace_char_def Let_def comp_def)
qed

lemma sanitize_filename_chars:
  "set (sanitize_filename s) \<inter> (set invalid_filename_chars \<union> {LF, CR}) = {}"
proof -
  have "c \<notin> set invalid_filename_chars \<union> {LF, CR}" if "c \<in> set (sanitize_filename s)" for c
  proof -
    from that have "c \<in> set (map sanitize_char s)"
      unfolding sanitize_filename_as_map by (rule in_set_takeD)
    then obtain d where "c = sanitize_char d" by auto
    then show ?thesis using sanitize_char_clean by simp
  qed
  then show ?thesis by blast
qed

lemma sanitize_filename_fixed:
  assumes "set s \<inter> (set invalid_filename_chars \<union> {LF, CR}) = {}" and "length s \<le> 240"
  shows "sanitize_filename s = s"
proof -
  have "map sanitize_char s = map (\<lambda>c. c) s"
    using assms(1) by (intro map_cong refl sanitize_char_fixed) blast
  with assms(2) show ?thesis
    by (simp add: sanitize_filename_as_map)
qed

lemma sanitize_filename_length: "length (sanitize_filename s) \<le> 240"
  by (simp add: sanitize_filename_as_map)

text \<open>
  C4: \<open>sanitize_filename\<close> is idempotent, its result has at most 240 characters, and
  its result contains none of the reserved characters \<open>< > : " / \ | ? *\<close> and no
  newline (neither line feed nor carriage return).
\<close>

theorem sanitize_filename_idempotent_bounded_clean:
  "sanitize_filename (sanitize_filename s) = sanitize_filename s
   \<and> length (sanitize_filename s) \<le> 240
   \<and> set (sanitize_filename s) \<inter> (set invalid_filename_chars \<union> {LF, CR}) = {}"
  using sanitize_filename_fixed [OF sanitize_filename_chars sanitize_filename_length]
        sanitize_filename_length sanitize_filename_chars
  by blast

section \<open>Evaluating the examples\<close>

lemmas char_eval = char_of_eq_iff Let_def

lemma strptime_example:
  "strptime ''January 20, 2021'' = Some \<lparr>year = 2021, month = 1, day = 20\<rparr>"
proof -
  have "match_month ''January 20, 2021'' = Some (1, '' 20, 2021'')"
    by (simp add: match_month_def month_names_def py_lower_def py_lower_char_def char_eval)
  moreover have "match_spaces '' 20, 2021'' = Some ''20, 2021''"
    by (simp add: match_spaces_def py_isspace_def char_eval)
  moreover have "match_day ''20, 2021'' = Some (20, '', 2021'')"
    by (simp add: match_day_def two_digit_day_def is_digit_def int_of_digits_def digit_val_def)
  moreover have "match_spaces '' 2021'' = Some ''2021''"
    by (simp add: match_spaces_def py_isspace_def char_eval)
  moreover have "match_year ''2021'' = Some (2021, [])"
    by (simp add: match_year_def is_digit_def int_of_digits_def digit_val_def)
  moreover have "valid_date 2021 1 20"
    by (simp add: valid_date_def days_in_month_def)
  ultimately show ?thesis
    by (simp add: strptime_def match_comma_def)
qed

lemma strftime_example: "strftime b \<lparr>year = 2021, month = 1, day = 20\<rparr> = ''2021-01-20''"
proof -
  have "str_nat 2021 = ''2021''" "str_nat 1 = ''1''" "str_nat 20 = ''20''"
    by (simp_all add: str_nat.simps digit_char_def char_eval)
  then show ?thesis by (simp add: strftime_def zfill_def)
qed

lemma convert_date_format_example:
  "convert_date_format s ''January 20, 2021'' = (''2021-01-20'', s)"
  using strptime_example strftime_example [of "libc_pads_year s"]
  by (simp add: convert_date_format_def)



section \<open>Which strings are dates\<close>

lemma py_lower_append [simp]: "py_lower (a @ b) = py_lower a @ py_lower b"
  by (simp add: py_lower_def)

lemma py_lower_take [simp]: "py_lower (take n a) = take n (py_lower a)"
  by (simp add: py_lower_def take_map)

lemma length_py_lower [simp]: "length (py_lower a) = length a"
  by (simp add: py_lower_def)

lemma match_month_from_sound:
  "match_month_from k names s = Some (m, r) \<Longrightarrow>
   \<exists>i < length names. m = k + i \<and> py_lower (take (length (names ! i)) s) = names ! i
      \<and> r = drop (length (names ! i)) s"
proof (induction names arbitrary: k)
  case Nil
  then show ?case by simp
next
  case (Cons n names)
  show ?case
  proof (cases "py_lower (take (length n) s) = n")
    case True
    with Cons.prems have "m = k + 0 \<and> py_lower (take (length ((n # names) ! 0)) s) = (n # names) ! 0
      \<and> r = drop (length ((n # names) ! 0)) s" by simp
    then show ?thesis by blast
  next
    case False
    with Cons.prems have "match_month_from (Suc k) names s = Some (m, r)" by simp
    from Cons.IH [OF this] obtain i where "i < length names" "m = Suc k + i"
      "py_lower (take (length (names ! i)) s) = names ! i" "r = drop (length (names ! i)) s"
      by blast
    then have "Suc i < length (n # names) \<and> m = k + Suc i
      \<and> py_lower (take (length ((n # names) ! Suc i)) s) = (n # names) ! Suc i
      \<and> r = drop (length ((n # names) ! Suc i)) s" by simp
    then show ?thesis by blast
  qed
qed

lemma length_month_names: "length month_names = 12"
  by (simp add: month_names_def)

lemma match_month_sound:
  assumes "match_month s = Some (m, r)"
  shows "1 \<le> m \<and> m \<le> 12 \<and> (\<exists>name. s = name @ r \<and> py_lower name = month_names ! (m - 1))"
proof -
  from match_month_from_sound [OF assms [unfolded match_month_def]]
  obtain i where i: "i < length month_names" "m = 1 + i"
    "py_lower (take (length (month_names ! i)) s) = month_names ! i"
    "r = drop (length (month_names ! i)) s" by blast
  have "s = take (length (month_names ! i)) s @ r" using i(4) by simp
  moreover have "m - 1 = i" using i(2) by simp
  ultimately have "\<exists>name. s = name @ r \<and> py_lower name = month_names ! (m - 1)"
    using i(3) by metis
  with i(1,2) show ?thesis by (simp add: length_month_names)
qed

lemma match_month_from_complete:
  assumes "i < length names"
    and "py_lower (take (length (names ! i)) s) = names ! i"
    and "\<forall>j < i. py_lower (take (length (names ! j)) s) \<noteq> names ! j"
  shows "match_month_from k names s = Some (k + i, drop (length (names ! i)) s)"
  using assms
proof (induction names arbitrary: k i)
  case Nil
  then show ?case by simp
next
  case (Cons n names)
  show ?case
  proof (cases i)
    case 0
    with Cons.prems show ?thesis by simp
  next
    case (Suc i')
    with Cons.prems have "py_lower (take (length n) s) \<noteq> n" by auto
    moreover have "match_month_from (Suc k) names s = Some (Suc k + i', drop (length (names ! i')) s)"
    proof (rule Cons.IH)
      show "i' < length names" using Cons.prems(1) Suc by simp
      show "py_lower (take (length (names ! i')) s) = names ! i'" using Cons.prems(2) Suc by simp
      show "\<forall>j < i'. py_lower (take (length (names ! j)) s) \<noteq> names ! j"
        using Cons.prems(3) Suc by auto
    qed
    ultimately show ?thesis using Suc by simp
  qed
qed

lemma twelve_cases:
  assumes "i < (12::nat)"
  obtains "i = 0" | "i = 1" | "i = 2" | "i = 3" | "i = 4" | "i = 5" | "i = 6" | "i = 7"
    | "i = 8" | "i = 9" | "i = 10" | "i = 11"
proof -
  from assms have "i = 0 \<or> i = 1 \<or> i = 2 \<or> i = 3 \<or> i = 4 \<or> i = 5 \<or> i = 6 \<or> i = 7
    \<or> i = 8 \<or> i = 9 \<or> i = 10 \<or> i = 11" by arith
  then show ?thesis using that by blast
qed

lemma month_names_nth:
  "month_names ! 0 = ''january''" "month_names ! 1 = ''february''" "month_names ! 2 = ''march''"
  "month_names ! 3 = ''april''" "month_names ! 4 = ''may''" "month_names ! 5 = ''june''"
  "month_names ! 6 = ''july''" "month_names ! 7 = ''august''" "month_names ! 8 = ''september''"
  "month_names ! 9 = ''october''" "month_names ! 10 = ''november''" "month_names ! 11 = ''december''"
  "month_names ! Suc 0 = ''february''"
  by (simp_all add: month_names_def)

lemma all_less_twelve:
  "(\<forall>j < (12::nat). P j) \<longleftrightarrow>
     P 0 \<and> P 1 \<and> P 2 \<and> P 3 \<and> P 4 \<and> P 5 \<and> P 6 \<and> P 7 \<and> P 8 \<and> P 9 \<and> P 10 \<and> P 11"
proof
  assume "\<forall>j < 12. P j"
  then show "P 0 \<and> P 1 \<and> P 2 \<and> P 3 \<and> P 4 \<and> P 5 \<and> P 6 \<and> P 7 \<and> P 8 \<and> P 9 \<and> P 10 \<and> P 11"
    by simp
next
  assume a: "P 0 \<and> P 1 \<and> P 2 \<and> P 3 \<and> P 4 \<and> P 5 \<and> P 6 \<and> P 7 \<and> P 8 \<and> P 9 \<and> P 10 \<and> P 11"
  show "\<forall>j < 12. P j"
  proof (intro allI impI)
    fix j :: nat assume "j < 12"
    then show "P j" using a by (cases rule: twelve_cases) simp_all
  qed
qed

lemma month_names_prefix_free:
  assumes "i < 12" "j < 12" "i \<noteq> j"
  shows "take (length (month_names ! j)) (month_names ! i @ x) \<noteq> month_names ! j"
proof -
  have "\<forall>j < 12. i \<noteq> j \<longrightarrow> take (length (month_names ! j)) (month_names ! i @ x) \<noteq> month_names ! j"
    using assms(1)
    by (cases rule: twelve_cases)
       (simp_all only: month_names_nth, simp_all add: all_less_twelve month_names_nth)
  with assms(2,3) show ?thesis by blast
qed

lemma match_month_complete:
  assumes "1 \<le> m" "m \<le> 12" "py_lower name = month_names ! (m - 1)"
  shows "match_month (name @ rest) = Some (m, rest)"
proof -
  let ?i = "m - 1"
  have i: "?i < 12" using assms(1,2) by simp
  have len: "length name = length (month_names ! ?i)"
    using assms(3) by (metis length_py_lower)
  have "match_month_from 1 month_names (name @ rest)
        = Some (1 + ?i, drop (length (month_names ! ?i)) (name @ rest))"
  proof (rule match_month_from_complete)
    show "?i < length month_names" using i by (simp add: length_month_names)
    show "py_lower (take (length (month_names ! ?i)) (name @ rest)) = month_names ! ?i"
      using assms(3) len by simp
    show "\<forall>j < ?i. py_lower (take (length (month_names ! j)) (name @ rest)) \<noteq> month_names ! j"
    proof (intro allI impI)
      fix j assume j: "j < ?i"
      have "py_lower (take (length (month_names ! j)) (name @ rest))
            = take (length (month_names ! j)) (month_names ! ?i @ py_lower rest)"
        using assms(3) len by simp
      also have "\<dots> \<noteq> month_names ! j"
        using month_names_prefix_free [of ?i j] i j by simp
      finally show "py_lower (take (length (month_names ! j)) (name @ rest)) \<noteq> month_names ! j" .
    qed
  qed
  then show ?thesis using assms(1) len by (simp add: match_month_def)
qed

lemma digit_not_space: "is_digit c \<Longrightarrow> \<not> py_isspace c"
  by (auto simp: is_digit_def py_isspace_def Let_def)

lemma match_spaces_sound:
  assumes "match_spaces r = Some r'"
  shows "\<exists>ws. r = ws @ r' \<and> ws \<noteq> [] \<and> list_all py_isspace ws"
proof -
  from assms obtain c cs where r: "r = c # cs" and c: "py_isspace c"
    and r': "r' = dropWhile py_isspace cs"
    by (auto simp: match_spaces_def split: list.splits if_splits)
  let ?ws = "c # takeWhile py_isspace cs"
  have "r = ?ws @ r'" using r r' by simp
  moreover have "list_all py_isspace ?ws"
    using c by (auto simp: list_all_iff dest: set_takeWhileD)
  ultimately show ?thesis by blast
qed

lemma match_spaces_complete:
  assumes "ws \<noteq> []" "list_all py_isspace ws" "r' = [] \<or> \<not> py_isspace (hd r')"
  shows "match_spaces (ws @ r') = Some r'"
proof -
  from assms(1) obtain c cs where ws: "ws = c # cs" by (cases ws) auto
  with assms(2) have c: "py_isspace c" and cs: "\<And>x. x \<in> set cs \<Longrightarrow> py_isspace x"
    by (auto simp: list_all_iff)
  have "dropWhile py_isspace (cs @ r') = dropWhile py_isspace r'"
    using cs by (rule dropWhile_append2)
  also have "\<dots> = r'" using assms(3) by (cases r') auto
  finally show ?thesis using c by (simp add: match_spaces_def ws)
qed

lemma match_day_sound:
  assumes "match_day r = Some (d, r')"
  shows "\<exists>ds. r = ds @ r' \<and> day_digits ds d"
proof (cases r)
  case Nil
  with assms show ?thesis by (simp add: match_day_def)
next
  case (Cons a r1)
  show ?thesis
  proof (cases r1)
    case Nil
    with assms Cons have "r = [a] @ r' \<and> day_digits [a] d"
      by (auto simp: match_day_def day_digits_def split: if_splits)
    then show ?thesis by blast
  next
    case r1: (Cons b rest)
    show ?thesis
    proof (cases "two_digit_day a b")
      case True
      with assms Cons r1 have "r = [a, b] @ r' \<and> day_digits [a, b] d"
        by (auto simp: match_day_def day_digits_def)
      then show ?thesis by blast
    next
      case False
      with assms Cons r1 have "r = [a] @ r' \<and> day_digits [a] d"
        by (auto simp: match_day_def day_digits_def split: if_splits)
      then show ?thesis by blast
    qed
  qed
qed

lemma comma_no_digit: "\<not> two_digit_day a (CHR '','')"
  by (simp add: two_digit_day_def is_digit_def)

lemma match_day_complete:
  assumes "day_digits ds d"
  shows "match_day (ds @ CHR '','' # rest) = Some (d, CHR '','' # rest)"
  using assms by (auto simp: day_digits_def match_day_def comma_no_digit)

lemma match_year_sound:
  assumes "match_year r = Some (y, [])"
  shows "length r = 4 \<and> list_all is_digit r \<and> y = int_of_digits r"
  using assms by (auto simp: match_year_def split: if_splits)

lemma match_year_complete:
  assumes "length ys = 4" "list_all is_digit ys"
  shows "match_year ys = Some (int_of_digits ys, [])"
  using assms by (simp add: match_year_def)

lemma day_digits_start:
  assumes "day_digits ds d"
  shows "ds \<noteq> [] \<and> is_digit (hd ds)"
  using assms by (auto simp: day_digits_def one_digit_day_def two_digit_day_def is_digit_def)

lemma strptime_sound:
  assumes "strptime s = Some dt"
  shows "written_as s (year dt) (month dt) (day dt) \<and> valid_date (year dt) (month dt) (day dt)"
proof -
  from assms obtain m r1 r2 d r3 r4 r5 y where
    1: "match_month s = Some (m, r1)" and 2: "match_spaces r1 = Some r2"
    and 3: "match_day r2 = Some (d, r3)" and 4: "match_comma r3 = Some r4"
    and 5: "match_spaces r4 = Some r5" and 6: "match_year r5 = Some (y, [])"
    and v: "valid_date y m d" and dt: "dt = \<lparr>year = y, month = m, day = d\<rparr>"
    by (auto simp: strptime_def split: option.splits prod.splits if_splits)
  from match_month_sound [OF 1] obtain name where
    m: "1 \<le> m" "m \<le> 12" and s: "s = name @ r1" and name: "py_lower name = month_names ! (m - 1)"
    by blast
  from match_spaces_sound [OF 2] obtain ws1 where
    ws1: "r1 = ws1 @ r2" "ws1 \<noteq> []" "list_all py_isspace ws1" by blast
  from match_day_sound [OF 3] obtain ds where ds: "r2 = ds @ r3" "day_digits ds d" by blast
  from 4 have r3: "r3 = '','' @ r4"
    by (auto simp: match_comma_def split: list.splits if_splits)
  from match_spaces_sound [OF 5] obtain ws2 where
    ws2: "r4 = ws2 @ r5" "ws2 \<noteq> []" "list_all py_isspace ws2" by blast
  from match_year_sound [OF 6] have ys: "length r5 = 4" "list_all is_digit r5" "y = int_of_digits r5"
    by auto
  have "s = name @ ws1 @ ds @ '','' @ ws2 @ r5"
    using s ws1(1) ds(1) r3 ws2(1) by simp
  with m name ws1(2,3) ds(2) ws2(2,3) ys have "written_as s y m d"
    unfolding written_as_def by blast
  with v show ?thesis by (simp add: dt)
qed

lemma strptime_complete:
  assumes "written_as s y m d" "valid_date y m d"
  shows "strptime s = Some \<lparr>year = y, month = m, day = d\<rparr>"
proof -
  from assms(1) obtain name ws1 ds ws2 ys where
    s: "s = name @ ws1 @ ds @ '','' @ ws2 @ ys"
    and m: "1 \<le> m" "m \<le> 12" "py_lower name = month_names ! (m - 1)"
    and ws1: "ws1 \<noteq> []" "list_all py_isspace ws1"
    and ds: "day_digits ds d"
    and ws2: "ws2 \<noteq> []" "list_all py_isspace ws2"
    and ys: "length ys = 4" "list_all is_digit ys" "y = int_of_digits ys"
    unfolding written_as_def by blast
  have 1: "match_month s = Some (m, ws1 @ ds @ '','' @ ws2 @ ys)"
    unfolding s using m by (rule match_month_complete)
  have "\<not> py_isspace (hd (ds @ '','' @ ws2 @ ys))"
    using day_digits_start [OF ds] by (simp add: digit_not_space)
  then have 2: "match_spaces (ws1 @ ds @ '','' @ ws2 @ ys) = Some (ds @ '','' @ ws2 @ ys)"
    using ws1 by (intro match_spaces_complete) auto
  have 3: "match_day (ds @ '','' @ ws2 @ ys) = Some (d, '','' @ ws2 @ ys)"
    using match_day_complete [OF ds, of "ws2 @ ys"] by simp
  have 4: "match_comma ('','' @ ws2 @ ys) = Some (ws2 @ ys)"
    by (simp add: match_comma_def)
  from ys(1,2) have "ys \<noteq> [] \<and> is_digit (hd ys)" by (cases ys) auto
  then have "\<not> py_isspace (hd ys)" by (simp add: digit_not_space)
  then have 5: "match_spaces (ws2 @ ys) = Some ys"
    using ws2 by (intro match_spaces_complete) auto
  have 6: "match_year ys = Some (y, [])"
    using match_year_complete [OF ys(1,2)] ys(3) by simp
  show ?thesis
    using 1 2 3 4 5 6 assms(2) by (simp add: strptime_def)
qed

lemma digit_val_digit_char: "n < 10 \<Longrightarrow> digit_val (digit_char n) = n"
  by (simp add: digit_val_def digit_char_def)

lemma int_of_digits_snoc: "int_of_digits (xs @ [c]) = 10 * int_of_digits xs + digit_val c"
  by (simp add: int_of_digits_def)

lemma int_of_digits_str_nat: "int_of_digits (str_nat n) = n"
proof (induction n rule: str_nat.induct)
  case (1 n)
  show ?case
  proof (cases "n < 10")
    case True
    then show ?thesis
      by (subst str_nat.simps) (simp add: int_of_digits_def digit_val_digit_char)
  next
    case False
    with 1 have "int_of_digits (str_nat (n div 10)) = n div 10" by simp
    with False show ?thesis
      by (subst str_nat.simps) (simp add: int_of_digits_snoc digit_val_digit_char)
  qed
qed

lemma int_of_digits_zeros: "int_of_digits (replicate k (CHR ''0'') @ s) = int_of_digits s"
proof (induction k)
  case 0
  then show ?case by simp
next
  case (Suc k)
  have "int_of_digits (CHR ''0'' # t) = int_of_digits t" for t
    by (simp add: int_of_digits_def digit_val_def)
  with Suc show ?case by simp
qed

lemma int_of_digits_zfill: "int_of_digits (zfill w (str_nat n)) = n"
  by (simp add: zfill_def int_of_digits_zeros int_of_digits_str_nat)

lemma length_str_nat_1: "n < 10 \<Longrightarrow> length (str_nat n) = 1"
  by (subst str_nat.simps) simp

lemma length_str_nat_step: "\<not> n < 10 \<Longrightarrow> length (str_nat n) = Suc (length (str_nat (n div 10)))"
  by (subst str_nat.simps) simp

lemma length_str_nat_4: "n < 10000 \<Longrightarrow> length (str_nat n) \<le> 4"
proof -
  assume n: "n < 10000"
  have 2: "length (str_nat k) \<le> 2" if "k < 100" for k
    using that length_str_nat_1 [of k] length_str_nat_1 [of "k div 10"] length_str_nat_step [of k]
    by (cases "k < 10") auto
  have 3: "length (str_nat k) \<le> 3" if "k < 1000" for k
    using that length_str_nat_1 [of k] 2 [of "k div 10"] length_str_nat_step [of k]
    by (cases "k < 10") auto
  show ?thesis
    using n length_str_nat_1 [of n] 3 [of "n div 10"] length_str_nat_step [of n]
    by (cases "n < 10") auto
qed

lemma year_digits:
  assumes "y < 10000"
  shows "length (zfill 4 (str_nat y)) = 4 \<and> list_all is_digit (zfill 4 (str_nat y))
         \<and> int_of_digits (zfill 4 (str_nat y)) = y"
  using length_str_nat_4 [OF assms] str_nat_digits [of y] zfill_digits [of "str_nat y" 4]
  by (simp add: int_of_digits_zfill) (simp add: zfill_def)

lemma digit_chars:
  "digit_char 0 = CHR ''0''" "digit_char 1 = CHR ''1''" "digit_char 2 = CHR ''2''"
  "digit_char 3 = CHR ''3''" "digit_char (Suc 0) = CHR ''1''"
  by (simp_all add: digit_char_def char_eval)

lemma is_digit_digit_char: "k < 10 \<Longrightarrow> is_digit (digit_char k)"
  by (simp add: is_digit_def digit_char_def Let_def)

lemma digit_char_zero_iff: "k < 10 \<Longrightarrow> digit_char k = CHR ''0'' \<longleftrightarrow> k = 0"
  by (auto simp: digit_char_def char_eval take_bit_eq_mod)

lemma day_digits_zfill:
  assumes "1 \<le> d" "d \<le> 31"
  shows "day_digits (zfill 2 (str_nat d)) d"
proof (cases "d < 10")
  case True
  then have s: "zfill 2 (str_nat d) = [CHR ''0'', digit_char d]"
    by (subst str_nat.simps) (simp add: zfill_def)
  have "two_digit_day (CHR ''0'') (digit_char d)"
    using True assms(1) by (simp add: two_digit_day_def is_digit_digit_char digit_char_zero_iff)
  moreover have "int_of_digits [CHR ''0'', digit_char d] = d"
    using True by (simp add: int_of_digits_def digit_val_digit_char) (simp add: digit_val_def)
  ultimately show ?thesis unfolding day_digits_def s by metis
next
  case False
  let ?a = "digit_char (d div 10)" and ?b = "digit_char (d mod 10)"
  have "d div 10 < 10" using assms(2) by simp
  then have "str_nat (d div 10) = [?a]"
    by (subst str_nat.simps) simp
  with False have s: "zfill 2 (str_nat d) = [?a, ?b]"
    by (subst str_nat.simps) (simp add: zfill_def)
  from False assms(2) have "d div 10 = 1 \<or> d div 10 = 2 \<or> (d div 10 = 3 \<and> d mod 10 \<le> 1)"
    by presburger
  then consider "d div 10 = 1" | "d div 10 = 2" | "d div 10 = 3 \<and> d mod 10 \<le> 1"
    by blast
  then have "two_digit_day ?a ?b"
  proof cases
    case 1
    then show ?thesis by (simp add: two_digit_day_def digit_chars is_digit_digit_char)
  next
    case 2
    then show ?thesis by (simp add: two_digit_day_def digit_chars is_digit_digit_char)
  next
    case 3
    then have "d mod 10 = 0 \<or> d mod 10 = 1" by arith
    with 3 show ?thesis by (auto simp: two_digit_day_def digit_chars)
  qed
  moreover have "int_of_digits [?a, ?b] = d"
    using int_of_digits_str_nat [of d] s by (simp add: zfill_def) (metis int_of_digits_zfill s)
  ultimately show ?thesis unfolding day_digits_def s by metis
qed

lemma capitalized_lower:
  assumes "i < 12"
  shows "py_lower (capitalized_month_names ! i) = month_names ! i"
  using assms
  by (cases rule: twelve_cases)
     (simp_all add: capitalized_month_names_def month_names_def py_lower_def py_lower_char_def
        char_eval)

lemma valid_date_bounds:
  assumes "valid_date y m d"
  shows "1 \<le> m" "m \<le> 12" "1 \<le> d" "d \<le> 31" "1 \<le> y" "y < 10000"
  using assms by (auto simp: valid_date_def days_in_month_def split: if_splits)

lemma written_as_literal:
  assumes "valid_date y m d"
  shows "written_as (in_month_dd_yyyy y m d) y m d"
proof -
  note b = valid_date_bounds [OF assms]
  have "py_lower (capitalized_month_names ! (m - 1)) = month_names ! (m - 1)"
    using b(1,2) by (intro capitalized_lower) simp
  moreover have "day_digits (zfill 2 (str_nat d)) d"
    using b(3,4) by (rule day_digits_zfill)
  moreover have "list_all py_isspace '' ''"
    by (simp add: py_isspace_def)
  moreover note year_digits [OF b(6)]
  moreover have "in_month_dd_yyyy y m d =
     capitalized_month_names ! (m - 1) @ '' '' @ zfill 2 (str_nat d) @ '','' @ '' ''
       @ zfill 4 (str_nat y)"
    by (simp add: in_month_dd_yyyy_def)
  ultimately show ?thesis
    unfolding written_as_def using b(1,2) by (metis list.distinct(1))
qed

lemma length_capitalized:
  assumes "i < 12"
  shows "capitalized_month_names ! i \<in> set capitalized_month_names"
proof (rule nth_mem)
  show "i < length capitalized_month_names"
    using assms by (simp add: capitalized_month_names_def)
qed

lemma month_dd_yyyy_literal:
  assumes "valid_date y m d"
  shows "month_dd_yyyy (in_month_dd_yyyy y m d)"
proof -
  note b = valid_date_bounds [OF assms]
  let ?name = "capitalized_month_names ! (m - 1)"
  have "2 \<le> length (zfill 2 (str_nat d))"
    by (simp add: zfill_def)
  with day_digits_zfill [OF b(3,4)] obtain d1 d2 where dd: "zfill 2 (str_nat d) = [d1, d2]"
    by (auto simp: day_digits_def)
  have "list_all is_digit (zfill 2 (str_nat d))"
    using str_nat_digits [of d] zfill_digits by blast
  with dd have d12: "is_digit d1" "is_digit d2" by simp_all
  from year_digits [OF b(6)] have l4: "length (zfill 4 (str_nat y)) = 4"
    and a4: "list_all is_digit (zfill 4 (str_nat y))" by simp_all
  from l4 obtain y1 y2 y3 y4 where yy: "zfill 4 (str_nat y) = [y1, y2, y3, y4]"
    by (auto simp: length_Suc_conv numeral_eq_Suc)
  with a4 have y14: "is_digit y1" "is_digit y2" "is_digit y3" "is_digit y4" by simp_all
  have n: "?name \<in> set capitalized_month_names"
    using b(1,2) by (intro length_capitalized) simp
  have "startswith (in_month_dd_yyyy y m d) ?name"
    by (simp add: startswith_def in_month_dd_yyyy_def)
  moreover have "drop (length ?name) (in_month_dd_yyyy y m d)
       = [CHR '' '', d1, d2, CHR '','', CHR '' '', y1, y2, y3, y4]"
    by (simp add: in_month_dd_yyyy_def dd yy)
  ultimately show ?thesis
    unfolding month_dd_yyyy_def list_ex_iff using n d12 y14
    by (intro bexI [of _ ?name]) simp_all
qed

lemma length_str_nat_ge_4: "1000 \<le> n \<Longrightarrow> 4 \<le> length (str_nat n)"
proof -
  assume n: "1000 \<le> n"
  have 2: "2 \<le> length (str_nat k)" if "10 \<le> k" for k
    using that length_str_nat_step [of k] str_nat_digits [of "k div 10"]
    by (cases "str_nat (k div 10)") auto
  have 3: "3 \<le> length (str_nat k)" if "100 \<le> k" for k
    using that length_str_nat_step [of k] 2 [of "k div 10"] by auto
  show ?thesis
    using n length_str_nat_step [of n] 3 [of "n div 10"] by auto
qed

lemma strftime_iso:
  assumes "1000 \<le> year dt \<or> pads"
  shows "strftime pads dt =
     zfill 4 (str_nat (year dt)) @ ''-'' @ zfill 2 (str_nat (month dt)) @ ''-''
       @ zfill 2 (str_nat (day dt))"
proof (cases pads)
  case True
  then show ?thesis by (simp add: strftime_def)
next
  case False
  with assms have "4 \<le> length (str_nat (year dt))" by (simp add: length_str_nat_ge_4)
  then have "zfill 4 (str_nat (year dt)) = str_nat (year dt)" by (simp add: zfill_def)
  with False show ?thesis by (simp add: strftime_def)
qed

text \<open>
  C5, as the code has it. \<open>convert_date_format\<close> returns the date in the form
  \<open>%Y-%m-%d\<close> for exactly the strings that are written as a date of the calendar
  in the way \<open>strptime\<close> accepts: a month name in any letter case, whitespace, the
  day in one or two digits, a comma, whitespace, the year in four digits. Every other
  string gives the sentinel \<open>0000-00-00\<close> and a log entry; no path raises. Every date
  of the calendar written in the literal format \<open>Month DD, YYYY\<close> is among the
  strings accepted. The result has the ISO form \<open>YYYY-MM-DD\<close> for the years from
  1000 on, and for all years where the platform pads the year.
\<close>

theorem convert_date_format_accepts:
  "(written_as s y m d \<and> valid_date y m d \<longrightarrow>
      convert_date_format self s =
        (strftime (libc_pads_year self) \<lparr>year = y, month = m, day = d\<rparr>, self))
   \<and> (\<not> (\<exists>y m d. written_as s y m d \<and> valid_date y m d) \<longrightarrow>
        convert_date_format self s =
          (''0000-00-00'', add_log (Error_parsing_date s ValueError) self))
   \<and> (valid_date y m d \<longrightarrow>
        month_dd_yyyy (in_month_dd_yyyy y m d) \<and> written_as (in_month_dd_yyyy y m d) y m d)
   \<and> (1000 \<le> y \<or> pads \<longrightarrow>
        strftime pads \<lparr>year = y, month = m, day = d\<rparr> =
          zfill 4 (str_nat y) @ ''-'' @ zfill 2 (str_nat m) @ ''-'' @ zfill 2 (str_nat d))"
proof (intro conjI impI)
  assume "written_as s y m d \<and> valid_date y m d"
  then have "strptime s = Some \<lparr>year = y, month = m, day = d\<rparr>"
    using strptime_complete by blast
  then show "convert_date_format self s =
        (strftime (libc_pads_year self) \<lparr>year = y, month = m, day = d\<rparr>, self)"
    by (simp add: convert_date_format_def)
next
  assume no: "\<not> (\<exists>y m d. written_as s y m d \<and> valid_date y m d)"
  have "strptime s = None"
  proof (cases "strptime s")
    case None
    then show ?thesis .
  next
    case (Some dt)
    from strptime_sound [OF this] no show ?thesis by blast
  qed
  then show "convert_date_format self s =
          (''0000-00-00'', add_log (Error_parsing_date s ValueError) self)"
    by (simp add: convert_date_format_def)
next
  assume "valid_date y m d"
  then show "month_dd_yyyy (in_month_dd_yyyy y m d)" by (rule month_dd_yyyy_literal)
next
  assume "valid_date y m d"
  then show "written_as (in_month_dd_yyyy y m d) y m d" by (rule written_as_literal)
next
  assume "1000 \<le> y \<or> pads"
  then show "strftime pads \<lparr>year = y, month = m, day = d\<rparr> =
          zfill 4 (str_nat y) @ ''-'' @ zfill 2 (str_nat m) @ ''-'' @ zfill 2 (str_nat d)"
    using strftime_iso [of "\<lparr>year = y, month = m, day = d\<rparr>" pads] by simp
qed

lemmas strptime_eval =
  strptime_def match_month_def month_names_def py_lower_def py_lower_char_def match_spaces_def
  py_isspace_def match_day_def two_digit_day_def one_digit_day_def is_digit_def
  int_of_digits_def digit_val_def match_comma_def match_year_def valid_date_def
  days_in_month_def is_leap_def char_eval

lemma str_nat_examples:
  "str_nat 2021 = ''2021''" "str_nat 1 = ''1''" "str_nat 20 = ''20''" "str_nat 5 = ''5''"
  by (simp_all add: str_nat.simps digit_char_def char_eval)

text \<open>
  Against C5 as the specification states it: a string that is not in the literal format
  (capitals, several spaces, a one-digit day) is converted and not answered with the
  sentinel; and a string in the literal format that names no date of the calendar is
  answered with the sentinel.
\<close>

theorem convert_date_format_lenient:
  "\<not> month_dd_yyyy ''JANUARY   5,  2021''
   \<and> fst (convert_date_format scraper0 ''JANUARY   5,  2021'') = ''2021-01-05''
   \<and> month_dd_yyyy ''February 30, 2021''
   \<and> fst (convert_date_format scraper0 ''February 30, 2021'') = ''0000-00-00''"
proof -
  have 1: "\<not> month_dd_yyyy ''JANUARY   5,  2021''"
    by (simp add: month_dd_yyyy_def capitalized_month_names_def startswith_def)
  have "strptime ''JANUARY   5,  2021'' = Some \<lparr>year = 2021, month = 1, day = 5\<rparr>"
    by (simp add: strptime_eval)
  moreover have "strftime False \<lparr>year = 2021, month = 1, day = 5\<rparr> = ''2021-01-05''"
    using str_nat_examples by (simp add: strftime_def zfill_def)
  ultimately have 2: "fst (convert_date_format scraper0 ''JANUARY   5,  2021'') = ''2021-01-05''"
    by (simp add: convert_date_format_def scraper0_def)
  have 3: "month_dd_yyyy ''February 30, 2021''"
    by (simp add: month_dd_yyyy_def capitalized_month_names_def startswith_def is_digit_def)
  have "strptime ''February 30, 2021'' = None"
    by (simp add: strptime_eval)
  then have 4: "fst (convert_date_format scraper0 ''February 30, 2021'') = ''0000-00-00''"
    by (simp add: convert_date_format_def)
  from 1 2 3 4 show ?thesis by blast
qed

theorem convert_date_format_accepts_witness:
  "month_dd_yyyy ''January 20, 2021''
   \<and> convert_date_format scraper0 ''January 20, 2021'' = (''2021-01-20'', scraper0)
   \<and> convert_date_format scraper0 ''not a date'' =
        (''0000-00-00'', add_log (Error_parsing_date ''not a date'' ValueError) scraper0)"
proof -
  have v: "valid_date 2021 1 20"
    by (simp add: valid_date_def days_in_month_def)
  have lit: "in_month_dd_yyyy 2021 1 20 = ''January 20, 2021''"
    using str_nat_examples by (simp add: in_month_dd_yyyy_def capitalized_month_names_def zfill_def)
  from v convert_date_format_accepts [of _ 2021 1 20]
  have "month_dd_yyyy (in_month_dd_yyyy 2021 1 20)"
    and w: "written_as (in_month_dd_yyyy 2021 1 20) 2021 1 20"
    by blast+
  then have 1: "month_dd_yyyy ''January 20, 2021''" and w: "written_as ''January 20, 2021'' 2021 1 20"
    by (simp_all only: lit)
  from w v convert_date_format_accepts [of "''January 20, 2021''" 2021 1 20 scraper0]
  have "convert_date_format scraper0 ''January 20, 2021'' =
        (strftime (libc_pads_year scraper0) \<lparr>year = 2021, month = 1, day = 20\<rparr>, scraper0)"
    by blast
  moreover have "strftime (libc_pads_year scraper0) \<lparr>year = 2021, month = 1, day = 20\<rparr> = ''2021-01-20''"
    using str_nat_examples by (simp add: strftime_def zfill_def scraper0_def)
  ultimately have 2: "convert_date_format scraper0 ''January 20, 2021'' = (''2021-01-20'', scraper0)"
    by simp
  have "strptime ''not a date'' = None"
    by (simp add: strptime_eval)
  then have "\<not> (\<exists>y m d. written_as ''not a date'' y m d \<and> valid_date y m d)"
    using strptime_complete by fastforce
  with convert_date_format_accepts [of "''not a date''" _ _ _ scraper0]
  have 3: "convert_date_format scraper0 ''not a date'' =
        (''0000-00-00'', add_log (Error_parsing_date ''not a date'' ValueError) scraper0)"
    by blast
  from 1 2 3 show ?thesis by blast
qed

section \<open>The file written for a document\<close>














section \<open>The browser is always closed\<close>

lemma sends_refl: "sends s s"
  by (simp add: sends_def)

lemma sends_trans: "sends s s' \<Longrightarrow> sends s' s'' \<Longrightarrow> sends s s''"
  by (auto simp: sends_def)

lemma sends_add_log: "sends s (add_log e s)"
  by (simp add: sends_def add_log_def)

lemma sends_add_call: "c \<noteq> Quit \<Longrightarrow> sends s (add_call c s)"
  by (simp add: sends_def add_call_def)

lemma calls_add_log [simp]: "calls (add_log e s) = calls s"
  by (simp add: add_log_def)

lemma calls_add_call [simp]: "calls (add_call c s) = calls s @ [c]"
  by (simp add: add_call_def)

lemma calls_convert_date_format: "convert_date_format s d = (f, s') \<Longrightarrow> calls s' = calls s"
  by (auto simp: convert_date_format_def split: option.splits)

lemma calls_extract_except: "extract_except e s = (r, s') \<Longrightarrow> calls s' = calls s"
  by (auto simp: extract_except_def split: if_splits)

lemma calls_get_date: "get_date p s = Inr (d, f, s') \<Longrightarrow> calls s' = calls s"
  by (auto simp: get_date_def Let_def split: sum.splits if_splits prod.splits
           dest: calls_convert_date_format)

lemma calls_save_file: "save_file fio path pieces s = (r, s') \<Longrightarrow> calls s' = calls s"
  by (auto simp: save_file_def split: sum.splits prod.splits)

lemma calls_extract: "extract_and_save_document s t p = (r, s') \<Longrightarrow> calls s' = calls s"
  by (auto simp: extract_and_save_document_def Let_def
           split: sum.splits prod.splits option.splits
           dest!: calls_extract_except calls_get_date calls_save_file)

lemma sends_extract: "extract_and_save_document s t p = (r, s') \<Longrightarrow> sends s s'"
  by (simp add: sends_def calls_extract)

lemma sends_visit_link: "visit_link s l = (r, s') \<Longrightarrow> sends s s'"
  by (auto simp: visit_link_def Let_def sends_def
           split: sum.splits prod.splits option.splits dest!: calls_extract)

lemma sends_process_link: "process_link b n s l = (r, s') \<Longrightarrow> sends s s'"
  by (auto simp: process_link_def Let_def sends_def
           split: sum.splits prod.splits option.splits if_splits dest!: sends_visit_link)

lemma sends_process_links: "process_links b n s ls = (r, s') \<Longrightarrow> sends s s'"
proof (induction ls arbitrary: s)
  case Nil
  then show ?case by (simp add: sends_refl)
next
  case (Cons l ls)
  obtain r1 s1 where l: "process_link b n s l = (r1, s1)" by force
  then have 1: "sends s s1" by (rule sends_process_link)
  show ?case
  proof (cases r1)
    case None
    with Cons.prems l have "process_links b n s1 ls = (r, s')" by simp
    from sends_trans [OF 1 Cons.IH [OF this]] show ?thesis .
  next
    case (Some e)
    with Cons.prems l 1 show ?thesis by simp
  qed
qed

lemma sends_get_document_links: "get_document_links s p = (r, s') \<Longrightarrow> sends s s'"
  by (auto simp: get_document_links_def sends_def split: sum.splits if_splits)

lemma sends_go_to_next_page: "go_to_next_page s p = (r, s') \<Longrightarrow> sends s s'"
  by (auto simp: go_to_next_page_def sends_def Let_def split: sum.splits if_splits)

lemma sends_scrape_pages: "scrape_pages b n s ps = Some (r, s') \<Longrightarrow> sends s s'"
proof (induction ps arbitrary: n s)
  case Nil
  then show ?case by simp
next
  case (Cons p ps)
  let ?s0 = "add_log (Processing_page n) s"
  obtain r1 s1 where g: "get_document_links ?s0 p = (r1, s1)" by force
  have 1: "sends s s1"
    using sends_trans [OF sends_add_log sends_get_document_links [OF g]] .
  show ?case
  proof (cases r1)
    case (Inl e)
    with Cons.prems g 1 show ?thesis by simp
  next
    case (Inr ls)
    obtain r2 s2 where pl: "process_links b n s1 ls = (r2, s2)" by force
    have 2: "sends s s2" using sends_trans [OF 1 sends_process_links [OF pl]] .
    show ?thesis
    proof (cases r2)
      case (Some e)
      with Cons.prems g Inr pl 2 show ?thesis by simp
    next
      case None
      obtain r3 s3 where nx: "go_to_next_page s2 p = (r3, s3)" by force
      have 3: "sends s s3" using sends_trans [OF 2 sends_go_to_next_page [OF nx]] .
      show ?thesis
      proof (cases r3)
        case (Inl e)
        with Cons.prems g Inr pl None nx 3 show ?thesis by simp
      next
        case went: (Inr went)
        show ?thesis
        proof (cases went)
          case False
          with Cons.prems g Inr pl None nx went 3 show ?thesis by simp
        next
          case True
          with Cons.prems g Inr pl None nx went
          have "scrape_pages b (Suc n) s3 ps = Some (r, s')" by simp
          from sends_trans [OF 3 Cons.IH [OF this]] show ?thesis .
        qed
      qed
    qed
  qed
qed

lemma scrape_body_calls:
  "scrape_body b s st = Some (r, s') \<Longrightarrow> \<exists>cs. calls s' = calls s @ Get b # cs \<and> Quit \<notin> set cs"
proof -
  assume a: "scrape_body b s st = Some (r, s')"
  show ?thesis
  proof (cases "get_base st")
    case (Inl e)
    with a show ?thesis by (auto simp: scrape_body_def Let_def)
  next
    case (Inr u)
    with a have "scrape_pages b 1 (add_call (Get b) s) (pages st) = Some (r, s')"
      by (simp add: scrape_body_def Let_def)
    from sends_scrape_pages [OF this] show ?thesis by (auto simp: sends_def)
  qed
qed

lemma fatal_except_calls: "fatal_except (r, s) = (r', s') \<Longrightarrow> calls s' = calls s"
  by (auto simp: fatal_except_def split: option.splits if_splits)

lemma cleanup_calls: "cleanup s st = (r, s') \<Longrightarrow> calls s' = calls s @ [Quit]"
  by (auto simp: cleanup_def Let_def split: sum.splits if_splits)

lemma scrape_pages_returns:
  "ps \<noteq> [] \<Longrightarrow> next_link (last ps) = Inl NoSuchElementException \<Longrightarrow> scrape_pages b n s ps \<noteq> None"
proof (induction ps arbitrary: n s)
  case Nil
  then show ?case by simp
next
  case (Cons p ps)
  show ?case
  proof (cases "ps = []")
    case True
    with Cons.prems show ?thesis
      by (auto simp: Let_def go_to_next_page_def split: prod.splits sum.splits option.splits)
  next
    case False
    with Cons.prems have "\<And>n s. scrape_pages b n s ps \<noteq> None"
      using Cons.IH by simp
    then show ?thesis
      by (auto simp: Let_def split: prod.splits sum.splits option.splits)
  qed
qed

text \<open>
  C8: whenever \<open>start_scraping\<close> returns, normally or with an exception on its way
  out, the commands it sent to the browser end with \<open>quit\<close>, sent exactly once and
  after everything else; and it does return when opening the base page fails and when
  the last listing page given has no next-page link.
\<close>

theorem cleanup_on_every_exit:
  "(start_scraping self base_url st = Some (r, s') \<longrightarrow>
      (\<exists>cs. calls s' = calls self @ Get base_url # cs @ [Quit] \<and> Quit \<notin> set cs))
   \<and> (get_base st \<noteq> Inr () \<or> (pages st \<noteq> [] \<and> next_link (last (pages st)) = Inl NoSuchElementException)
        \<longrightarrow> start_scraping self base_url st \<noteq> None)"
proof (intro conjI impI)
  assume a: "start_scraping self base_url st = Some (r, s')"
  then obtain r0 s0 where b: "scrape_body base_url self st = Some (r0, s0)"
    by (auto simp: start_scraping_def split: option.splits)
  obtain r1 s1 where f: "fatal_except (r0, s0) = (r1, s1)" by force
  obtain r2 s2 where c: "cleanup s1 st = (r2, s2)" by force
  from a b f c have "s' = s2"
    by (auto simp: start_scraping_def split: option.splits)
  with scrape_body_calls [OF b] fatal_except_calls [OF f] cleanup_calls [OF c]
  show "\<exists>cs. calls s' = calls self @ Get base_url # cs @ [Quit] \<and> Quit \<notin> set cs"
    by auto
next
  assume a: "get_base st \<noteq> Inr () \<or> (pages st \<noteq> [] \<and> next_link (last (pages st)) = Inl NoSuchElementException)"
  have "scrape_body base_url self st \<noteq> None"
  proof (cases "get_base st")
    case (Inl e)
    then show ?thesis by (simp add: scrape_body_def Let_def)
  next
    case (Inr u)
    with a have "pages st \<noteq> []" "next_link (last (pages st)) = Inl NoSuchElementException"
      by auto
    from scrape_pages_returns [OF this] Inr show ?thesis
      by (simp add: scrape_body_def Let_def)
  qed
  then show "start_scraping self base_url st \<noteq> None"
    by (auto simp: start_scraping_def split: option.splits prod.splits)
qed

theorem cleanup_on_every_exit_witness:
  "\<exists>r s' cs. start_scraping scraper0 ''u'' site0 = Some (r, s')
      \<and> calls s' = Get ''u'' # cs @ [Quit] \<and> Quit \<notin> set cs"
proof -
  have "pages site0 \<noteq> [] \<and> next_link (last (pages site0)) = Inl NoSuchElementException"
    by (simp add: site0_def listing_last_def)
  with cleanup_on_every_exit [of scraper0 "''u''" site0]
  obtain r s' where run: "start_scraping scraper0 ''u'' site0 = Some (r, s')"
    by fastforce
  with cleanup_on_every_exit [of scraper0 "''u''" site0 r s']
  obtain cs where "calls s' = calls scraper0 @ Get ''u'' # cs @ [Quit]" and "Quit \<notin> set cs"
    by blast
  with run show ?thesis by (simp add: scraper0_def)
qed

section \<open>Failures inside the scraping loop\<close>







section \<open>The chunks of a text\<close>

lemma find_sep_absent: "c \<notin> set t \<Longrightarrow> find_sep (c # s) t = None"
  by (induction t) (auto simp: startswith_def)

lemma join_empty: "join [] xs = concat xs"
  by (induction "[] :: string" xs rule: join.induct) simp_all

lemma concat_single [simp]: "concat (map single t) = t"
  by (induction t) (simp_all add: single_def)

lemma py_strip_id:
  assumes "\<forall>c \<in> set t. \<not> py_isspace c"
  shows "py_strip t = t"
proof -
  have "dropWhile py_isspace u = u" if "\<forall>c \<in> set u. \<not> py_isspace c" for u
    using that by (cases u) auto
  from this [of t] this [of "rev t"] assms show ?thesis
    by (simp add: py_strip_def)
qed

lemma join_docs_chars:
  assumes "\<forall>c \<in> set t. \<not> py_isspace c"
  shows "join_docs (map single t) [] = (if t = [] then [] else [t])"
  using py_strip_id [OF assms] by (simp add: join_docs_def join_empty)

lemma pop_front_chars:
  assumes "co < cs" "length cur \<le> cs"
  shows "pop_front cs co 0 1 (map single cur) (int (length cur))
         = Inr (map single (drop (length cur - co) cur), int (min (length cur) co))"
  using assms(2)
proof (induction cur)
  case Nil
  then show ?case using assms(1) by (subst pop_front.simps) simp
next
  case (Cons c cur)
  show ?case
  proof (cases "length (c # cur) \<le> co")
    case True
    then show ?thesis using assms(1) by (subst pop_front.simps) (simp add: min_def)
  next
    case False
    then have d: "drop (length (c # cur) - co) (c # cur) = drop (length cur - co) cur"
      by (simp add: Suc_diff_le)
    have m: "min (length (c # cur)) co = min (length cur) co" using False by simp
    have "pop_front cs co 0 1 (map single (c # cur)) (int (length (c # cur)))
          = pop_front cs co 0 1 (map single cur) (int (length cur))"
      using False by (subst pop_front.simps) (simp add: single_def)
    also have "\<dots> = Inr (map single (drop (length cur - co) cur), int (min (length cur) co))"
      using Cons by simp
    finally show ?thesis by (simp only: d m)
  qed
qed

lemma merge_step_chars:
  assumes "co < cs" "length cur \<le> cs" "\<forall>x \<in> set cur. \<not> py_isspace x"
  shows "merge_step cs co [] [c] (docs, map single cur, int (length cur)) =
     (if length cur = cs
      then Inr (docs @ [cur], map single (drop (cs - co) cur @ [c]), int (Suc co))
      else Inr (docs, map single (cur @ [c]), int (Suc (length cur))))"
proof (cases "length cur = cs")
  case True
  with assms(1) have ne: "cur \<noteq> []" by auto
  have "pop_front cs co 0 1 (map single cur) (int (length cur))
         = Inr (map single (drop (cs - co) cur), int co)"
    using pop_front_chars [OF assms(1,2)] assms(1) True by (simp add: min_def)
  then show ?thesis
    using True ne assms(1) join_docs_chars [OF assms(3)]
    by (simp add: merge_step_def single_def)
next
  case False
  with assms(2) have "length cur < cs" by simp
  then show ?thesis
    using False by (simp add: merge_step_def single_def)
qed

lemma merge_loop_chars:
  assumes "co < cs"
  shows "length cur \<le> cs \<Longrightarrow> \<forall>x \<in> set (cur @ rest). \<not> py_isspace x \<Longrightarrow>
     \<exists>docs' cur'. merge_loop cs co [] (map single rest) (docs, map single cur, int (length cur))
                     = Inr (docs', map single cur', int (length cur'))
        \<and> (\<forall>x \<in> set cur'. \<not> py_isspace x)
        \<and> docs' @ (if cur' = [] then [] else [cur']) = docs @ slide cs co (cur @ rest)"
proof (induction rest arbitrary: cur docs)
  case Nil
  have "slide cs co cur = (if cur = [] then [] else [cur])"
    using Nil.prems(1) by (subst slide.simps) simp
  then have "merge_loop cs co [] (map single []) (docs, map single cur, int (length cur))
                     = Inr (docs, map single cur, int (length cur))
        \<and> (\<forall>x \<in> set cur. \<not> py_isspace x)
        \<and> docs @ (if cur = [] then [] else [cur]) = docs @ slide cs co (cur @ [])"
    using Nil.prems(2) by simp
  then show ?case by blast
next
  case (Cons c rest)
  have ws: "\<forall>x \<in> set cur. \<not> py_isspace x" using Cons.prems(2) by simp
  show ?case
  proof (cases "length cur = cs")
    case True
    let ?cur = "drop (cs - co) cur @ [c]"
    have len: "length ?cur = Suc co" using True assms by simp
    have step: "merge_step cs co [] [c] (docs, map single cur, int (length cur))
          = Inr (docs @ [cur], map single ?cur, int (length ?cur))"
      using merge_step_chars [OF assms Cons.prems(1) ws] True len by simp
    have "length ?cur \<le> cs" using len assms by simp
    moreover have "\<forall>x \<in> set (?cur @ rest). \<not> py_isspace x"
      using Cons.prems(2) by (auto dest: in_set_dropD)
    ultimately obtain docs' cur' where
      l: "merge_loop cs co [] (map single rest) (docs @ [cur], map single ?cur, int (length ?cur))
            = Inr (docs', map single cur', int (length cur'))"
      and w: "\<forall>x \<in> set cur'. \<not> py_isspace x"
      and r: "docs' @ (if cur' = [] then [] else [cur']) = (docs @ [cur]) @ slide cs co (?cur @ rest)"
      using Cons.IH by blast
    have "slide cs co (cur @ c # rest) = cur # slide cs co (?cur @ rest)"
      using True assms by (subst slide.simps) simp
    with r have "docs' @ (if cur' = [] then [] else [cur']) = docs @ slide cs co (cur @ c # rest)"
      by simp
    moreover have "merge_loop cs co [] (map single (c # rest)) (docs, map single cur, int (length cur))
            = Inr (docs', map single cur', int (length cur'))"
      using step l by (simp add: single_def)
    ultimately show ?thesis using w by blast
  next
    case False
    let ?cur = "cur @ [c]"
    have step: "merge_step cs co [] [c] (docs, map single cur, int (length cur))
          = Inr (docs, map single ?cur, int (length ?cur))"
      using merge_step_chars [OF assms Cons.prems(1) ws] False by simp
    have "length ?cur \<le> cs" using False Cons.prems(1) by simp
    moreover have "\<forall>x \<in> set (?cur @ rest). \<not> py_isspace x"
      using Cons.prems(2) by simp
    ultimately obtain docs' cur' where
      l: "merge_loop cs co [] (map single rest) (docs, map single ?cur, int (length ?cur))
            = Inr (docs', map single cur', int (length cur'))"
      and w: "\<forall>x \<in> set cur'. \<not> py_isspace x"
      and r: "docs' @ (if cur' = [] then [] else [cur']) = docs @ slide cs co (?cur @ rest)"
      using Cons.IH by blast
    have "merge_loop cs co [] (map single (c # rest)) (docs, map single cur, int (length cur))
            = Inr (docs', map single cur', int (length cur'))"
      using step l by (simp add: single_def)
    with r w show ?thesis by auto
  qed
qed

lemma merge_splits_chars:
  assumes "co < cs" "\<forall>x \<in> set t. \<not> py_isspace x"
  shows "merge_splits cs co (map single t) [] = Inr (slide cs co t)"
proof -
  from merge_loop_chars [OF assms(1), of "[]" t "[]"] assms(2)
  obtain docs' cur' where
    l: "merge_loop cs co [] (map single t) ([], [], 0) = Inr (docs', map single cur', int (length cur'))"
    and w: "\<forall>x \<in> set cur'. \<not> py_isspace x"
    and r: "docs' @ (if cur' = [] then [] else [cur']) = slide cs co t"
    by auto
  show ?thesis
    using l r join_docs_chars [OF w] by (simp add: merge_splits_def)
qed

lemma split_loop_small:
  assumes "\<forall>s \<in> set ss. length s < cs"
  shows "split_loop cs co ns ss good final =
     (if good @ ss \<noteq> []
      then (case merge_splits cs co (good @ ss) [] of
              Inl e \<Rightarrow> Inl e
            | Inr merged \<Rightarrow> Inr (final @ merged))
      else Inr final)"
  using assms by (induction ss arbitrary: good) auto

lemma split_loop_large:
  assumes "\<forall>s \<in> set ss. \<not> length s < cs"
  shows "split_loop cs co [] ss [] final = Inr (final @ ss)"
  using assms by (induction ss arbitrary: final) auto

lemma choose_separator_plain:
  assumes "LF \<notin> set t" "CHR '' '' \<notin> set t"
  shows "choose_separator default_separators t = Inr ([], [])"
  using assms by (simp add: choose_separator_def default_separators_def find_sep_absent)

lemma split_text_with_regex_chars: "split_text_with_regex t [] = map single t"
proof -
  have "filter (\<lambda>s. s \<noteq> []) (map (\<lambda>c. [c]) t) = map (\<lambda>c. [c]) t"
    by (induction t) simp_all
  then show ?thesis by (simp add: split_text_with_regex_def single_def [abs_def])
qed

lemma slide_unit: "slide (Suc 0) 0 t = map single t"
proof (induction t)
  case Nil
  show ?case by (subst slide.simps) simp
next
  case (Cons c t)
  then show ?case by (subst slide.simps) (cases t; simp add: single_def)
qed

lemma no_space_no_separator:
  assumes "\<forall>x \<in> set t. \<not> py_isspace x"
  shows "LF \<notin> set t" "CHR '' '' \<notin> set t"
proof -
  have "py_isspace LF" "py_isspace (CHR '' '')"
    by (simp_all add: py_isspace_def LF_def)
  with assms show "LF \<notin> set t" "CHR '' '' \<notin> set t" by blast+
qed

lemma split_text_plain:
  assumes "co < cs" "\<forall>x \<in> set t. \<not> py_isspace x"
  shows "split_text cs co t = Inr (slide cs co t)"
proof -
  note sep = choose_separator_plain [OF no_space_no_separator [OF assms(2)]]
  have rec: "split_text_rec cs co default_separators t = split_loop cs co [] (map single t) [] []"
    by (subst split_text_rec.simps) (simp add: sep split_text_with_regex_chars)
  show ?thesis
  proof (cases "cs = 1")
    case True
    with assms(1) have co: "co = 0" by simp
    have "\<forall>s \<in> set (map single t). \<not> length s < cs"
      using True by (simp add: single_def)
    from split_loop_large [OF this, of co "[]"] rec True co show ?thesis
      by (simp add: split_text_def slide_unit)
  next
    case False
    with assms(1) have "2 \<le> cs" by simp
    then have "\<forall>s \<in> set (map single t). length s < cs"
      by (simp add: single_def)
    from split_loop_small [OF this, of co "[]" "[]" "[]"] rec assms(1)
    have "split_text cs co t = (if t \<noteq> [] then Inr (slide cs co t) else Inr [])"
      by (simp add: split_text_def merge_splits_chars [OF assms])
    moreover have "slide cs co [] = []" by (subst slide.simps) simp
    ultimately show ?thesis by simp
  qed
qed

lemma split_text_empty: "co \<le> cs \<Longrightarrow> split_text cs co [] = Inr []"
  by (subst split_text_def, subst split_text_rec.simps)
     (auto simp: choose_separator_def default_separators_def split_text_with_regex_def
        re_split.simps split: sum.splits option.splits)

lemma slide_length:
  "co < cs \<Longrightarrow> length (slide cs co t) =
     (if t = [] then 0 else if length t \<le> co then 1 else claimed_count cs co (length t))"
proof (induction cs co t rule: slide.induct)
  case (1 cs co t)
  note lt = \<open>co < cs\<close>
  show ?case
  proof (cases "t = [] \<or> length t \<le> cs")
    case True
    show ?thesis
    proof (cases "t = [] \<or> length t \<le> co")
      case True
      then show ?thesis using lt by (subst slide.simps) auto
    next
      case False
      with True have b: "co < length t" "length t \<le> cs" by auto
      define d x where "d = cs - co" and "x = length t - co - 1"
      have x: "x < d" and e: "length t - co + (cs - co) - 1 = x + d"
        using b by (auto simp: d_def x_def)
      have "claimed_count cs co (length t) = (x + d) div d"
        unfolding claimed_count_def e by (simp only: d_def)
      also have "\<dots> = x div d + 1" using x by (intro div_add_self2) simp
      also have "\<dots> = 1" using x by simp
      finally have "claimed_count cs co (length t) = 1" .
      with b show ?thesis by (subst slide.simps) auto
    qed
  next
    case False
    then have b: "t \<noteq> []" "cs < length t" by auto
    let ?t = "drop (cs - co) t"
    have l: "length ?t = length t - (cs - co)" by simp
    have nz: "?t \<noteq> []" "\<not> length ?t \<le> co" using b lt by auto
    from 1 False lt have "length (slide cs co ?t) =
       (if ?t = [] then 0 else if length ?t \<le> co then 1 else claimed_count cs co (length ?t))"
      by simp
    then have ih: "length (slide cs co ?t) = claimed_count cs co (length ?t)"
      using nz by simp
    define d where "d = cs - co"
    have d: "0 < d" using lt by (simp add: d_def)
    have e: "length t - co + (cs - co) - 1 = (length t - (cs - co) - co + (cs - co) - 1) + d"
      using b lt by (simp add: d_def)
    have "claimed_count cs co (length t) = ((length t - (cs - co) - co + (cs - co) - 1) + d) div d"
      unfolding claimed_count_def e by (simp only: d_def)
    also have "\<dots> = (length t - (cs - co) - co + (cs - co) - 1) div d + 1"
      using d by (intro div_add_self2) simp
    also have "\<dots> = Suc ((length t - (cs - co) - co + (cs - co) - 1) div d)"
      by simp
    also have "\<dots> = Suc (claimed_count cs co (length ?t))"
      by (simp only: claimed_count_def l d_def)
    finally have "claimed_count cs co (length t) = Suc (claimed_count cs co (length ?t))" .
    with b ih lt show ?thesis by (subst slide.simps) auto
  qed
qed

lemma slide_nth:
  "co < cs \<Longrightarrow> i < length (slide cs co t) \<Longrightarrow>
   slide cs co t ! i = take cs (drop (i * (cs - co)) t)"
proof (induction cs co t arbitrary: i rule: slide.induct)
  case (1 cs co t)
  note lt = \<open>co < cs\<close>
  show ?case
  proof (cases "t = [] \<or> length t \<le> cs")
    case True
    with "1.prems" show ?thesis
      by (subst slide.simps, subst (asm) slide.simps) (auto split: if_splits)
  next
    case False
    then have b: "t \<noteq> []" "cs < length t" by auto
    have s: "slide cs co t = take cs t # slide cs co (drop (cs - co) t)"
      using b lt by (subst slide.simps) auto
    show ?thesis
    proof (cases i)
      case 0
      then show ?thesis by (simp add: s)
    next
      case (Suc j)
      with "1.prems" s have "j < length (slide cs co (drop (cs - co) t))" by simp
      with 1 False lt have "slide cs co (drop (cs - co) t) ! j
          = take cs (drop (j * (cs - co)) (drop (cs - co) t))" by simp
      then show ?thesis by (simp add: s Suc add.commute)
    qed
  qed
qed

lemma slide_covers:
  "co < cs \<Longrightarrow> t \<noteq> [] \<Longrightarrow>
     slide cs co t \<noteq> [] \<and> (co < length t \<longrightarrow> co < length (hd (slide cs co t)))
     \<and> hd (slide cs co t) @ concat (map (drop co) (tl (slide cs co t))) = t"
proof (induction cs co t rule: slide.induct)
  case (1 cs co t)
  note lt = \<open>co < cs\<close>
  show ?case
  proof (cases "length t \<le> cs")
    case True
    then have "slide cs co t = [t]" using "1.prems" by (subst slide.simps) auto
    then show ?thesis by simp
  next
    case False
    then have b: "cs < length t" by auto
    let ?t = "drop (cs - co) t"
    have s: "slide cs co t = take cs t # slide cs co ?t"
      using b lt "1.prems" by (subst slide.simps) auto
    have nz: "?t \<noteq> []" "co < length ?t" using b lt by auto
    with 1 False have ih: "slide cs co ?t \<noteq> []" "co < length (hd (slide cs co ?t))"
      "hd (slide cs co ?t) @ concat (map (drop co) (tl (slide cs co ?t))) = ?t"
      by auto
    obtain h r where hr: "slide cs co ?t = h # r" using ih(1) by (cases "slide cs co ?t") auto
    with ih have h: "co < length h" "h @ concat (map (drop co) r) = ?t" by simp_all
    have "drop co h @ concat (map (drop co) r) = drop co (h @ concat (map (drop co) r))"
      using h(1) by simp
    also have "\<dots> = drop cs t" using h(2) lt by simp
    finally have "take cs t @ drop co h @ concat (map (drop co) r) = t" by simp
    then show ?thesis using b lt by (simp add: s hr)
  qed
qed


text \<open>
  C2, as the code has it, for a positive chunk size \<open>cs\<close> and an overlap \<open>co\<close>.
  The empty text gives no chunk and no error. For a text without
  whitespace (so without any of the splitter's separators) and an overlap smaller than
  the chunk size, chunk \<open>i\<close> is the \<open>cs\<close> characters from offset \<open>i * (cs - co)\<close>,
  cut off at the end of the text; the chunks with their overlaps removed make up the
  text again; and there are \<open>ceil((n - co) / (cs - co))\<close> of them when the text is
  longer than the overlap, and one when it is not longer but not empty.
\<close>

theorem splitter_windows:
  "(0 < cs \<and> co \<le> cs \<longrightarrow> split_text cs co [] = Inr [])
   \<and> (co < cs \<and> (\<forall>x \<in> set t. \<not> py_isspace x) \<longrightarrow>
        (\<exists>chunks. split_text cs co t = Inr chunks
           \<and> length chunks =
                 (if t = [] then 0 else if length t \<le> co then 1
                  else claimed_count cs co (length t))
           \<and> (\<forall>i < length chunks. chunks ! i = take cs (drop (i * (cs - co)) t))
           \<and> (t \<noteq> [] \<longrightarrow> hd chunks @ concat (map (drop co) (tl chunks)) = t)))"
proof (intro conjI impI)
  assume "0 < cs \<and> co \<le> cs"
  then show "split_text cs co [] = Inr []" by (simp add: split_text_empty)
next
  assume a: "co < cs \<and> (\<forall>x \<in> set t. \<not> py_isspace x)"
  then have "split_text cs co t = Inr (slide cs co t)"
    using split_text_plain by blast
  moreover have "length (slide cs co t) =
       (if t = [] then 0 else if length t \<le> co then 1 else claimed_count cs co (length t))"
    using a slide_length by blast
  moreover have "\<forall>i < length (slide cs co t). slide cs co t ! i = take cs (drop (i * (cs - co)) t)"
    using a slide_nth by blast
  moreover have "t \<noteq> [] \<longrightarrow> hd (slide cs co t) @ concat (map (drop co) (tl (slide cs co t))) = t"
    using a slide_covers by blast
  ultimately show "\<exists>chunks. split_text cs co t = Inr chunks
           \<and> length chunks =
                 (if t = [] then 0 else if length t \<le> co then 1
                  else claimed_count cs co (length t))
           \<and> (\<forall>i < length chunks. chunks ! i = take cs (drop (i * (cs - co)) t))
           \<and> (t \<noteq> [] \<longrightarrow> hd chunks @ concat (map (drop co) (tl chunks)) = t)"
    by blast
qed

text \<open>
  Against C2 as the specification states it: a text with a space is cut at the space
  and its chunks are stripped, so they are not the windows at fixed offsets; and a text
  that is not longer than the overlap gives one chunk where the formula gives none.
\<close>

theorem splitter_cuts_at_separators:
  "split_text 5 0 ''aaa bbb'' = Inr [''aaa'', ''bbb'']
   \<and> claimed_chunks 5 0 ''aaa bbb'' = [''aaa b'', ''bb'']
   \<and> split_text 4 1 ''a'' = Inr [''a'']
   \<and> claimed_chunks 4 1 ''a'' = []"
proof -
  have 1: "split_text 5 0 ''aaa bbb'' = Inr [''aaa'', ''bbb'']"
    by code_simp
  have 2: "claimed_chunks 5 0 ''aaa bbb'' = [''aaa b'', ''bb'']"
    by code_simp
  have 3: "split_text 4 1 ''a'' = Inr [''a'']"
    by code_simp
  have 4: "claimed_chunks 4 1 ''a'' = []"
    by code_simp
  from 1 2 3 4 show ?thesis by blast
qed

theorem splitter_windows_witness:
  "\<exists>chunks. split_text 4 1 ''abcdefghijk'' = Inr chunks
     \<and> length chunks = 4
     \<and> chunks ! 0 = ''abcd'' \<and> chunks ! 1 = ''defg'' \<and> chunks ! 2 = ''ghij'' \<and> chunks ! 3 = ''jk''
     \<and> hd chunks @ concat (map (drop 1) (tl chunks)) = ''abcdefghijk''"
proof -
  have "(1::nat) < 4 \<and> (\<forall>x \<in> set ''abcdefghijk''. \<not> py_isspace x)"
    by (simp add: py_isspace_def)
  with splitter_windows [where cs = 4 and co = 1 and t = "''abcdefghijk''"]
  obtain chunks where c: "split_text 4 1 ''abcdefghijk'' = Inr chunks"
    and l: "length chunks = claimed_count 4 1 (length ''abcdefghijk'')"
    and n: "\<forall>i < length chunks. chunks ! i = take 4 (drop (i * (4 - 1)) ''abcdefghijk'')"
    and h: "hd chunks @ concat (map (drop 1) (tl chunks)) = ''abcdefghijk''"
    by auto
  have l4: "length chunks = 4"
    using l by (simp add: claimed_count_def)
  with n have "chunks ! 0 = ''abcd'' \<and> chunks ! 1 = ''defg'' \<and> chunks ! 2 = ''ghij'' \<and> chunks ! 3 = ''jk''"
    by simp
  with c l4 h show ?thesis by blast
qed

section \<open>Ingestion\<close>

lemma load_files_all:
  "\<forall>f \<in> set files. endswith f ''.docx'' \<longrightarrow> (\<exists>d. docx2txt_load w (path_join root f) = Inr [d]) \<Longrightarrow>
   \<exists>docs. load_files w root files acc = Inr (acc @ docs)
      \<and> length docs = length (filter (\<lambda>f. endswith f ''.docx'') files)
      \<and> (\<forall>i < length docs.
            docx2txt_load w (map (path_join root) (filter (\<lambda>f. endswith f ''.docx'') files) ! i)
              = Inr [docs ! i])"
proof (induction files arbitrary: acc)
  case Nil
  then show ?case by simp
next
  case (Cons f files)
  then have rest: "\<forall>f \<in> set files. endswith f ''.docx'' \<longrightarrow> (\<exists>d. docx2txt_load w (path_join root f) = Inr [d])"
    by simp
  show ?case
  proof (cases "endswith f ''.docx''")
    case False
    with Cons.IH [OF rest, of acc] show ?thesis by simp
  next
    case True
    with Cons.prems obtain d where d: "docx2txt_load w (path_join root f) = Inr [d]" by auto
    from Cons.IH [OF rest, of "acc @ [d]"] obtain docs where
      l: "load_files w root files (acc @ [d]) = Inr ((acc @ [d]) @ docs)"
      and n: "length docs = length (filter (\<lambda>f. endswith f ''.docx'') files)"
      and e: "\<forall>i < length docs.
            docx2txt_load w (map (path_join root) (filter (\<lambda>f. endswith f ''.docx'') files) ! i)
              = Inr [docs ! i]"
      by blast
    have "load_files w root (f # files) acc = Inr (acc @ (d # docs))"
      using True d l by simp
    moreover have "length (d # docs) = length (filter (\<lambda>f. endswith f ''.docx'') (f # files))"
      using True n by simp
    moreover have "\<forall>i < length (d # docs).
            docx2txt_load w (map (path_join root) (filter (\<lambda>f. endswith f ''.docx'') (f # files)) ! i)
              = Inr [(d # docs) ! i]"
      using True d e by (auto simp: nth_Cons split: nat.splits)
    ultimately show ?thesis by blast
  qed
qed

lemma load_walk_all:
  "\<forall>p \<in> set (docx_paths walk). \<exists>d. docx2txt_load w p = Inr [d] \<Longrightarrow>
   \<exists>docs. load_walk w walk acc = Inr (acc @ docs)
      \<and> length docs = length (docx_paths walk)
      \<and> (\<forall>i < length docs. docx2txt_load w (docx_paths walk ! i) = Inr [docs ! i])"
proof (induction walk arbitrary: acc)
  case Nil
  then show ?case by (simp add: docx_paths_def)
next
  case (Cons x walk)
  obtain root dirs files where x: "x = (root, dirs, files)" by (cases x) auto
  let ?here = "map (path_join root) (filter (\<lambda>f. endswith f ''.docx'') files)"
  have split: "docx_paths (x # walk) = ?here @ docx_paths walk"
    by (simp add: docx_paths_def x)
  from Cons.prems have "\<forall>f \<in> set files. endswith f ''.docx'' \<longrightarrow> (\<exists>d. docx2txt_load w (path_join root f) = Inr [d])"
    by (auto simp: split)
  from load_files_all [OF this, of acc] obtain docs1 where
    1: "load_files w root files acc = Inr (acc @ docs1)"
    and n1: "length docs1 = length ?here"
    and e1: "\<forall>i < length docs1. docx2txt_load w (?here ! i) = Inr [docs1 ! i]"
    by auto
  from Cons.prems have "\<forall>p \<in> set (docx_paths walk). \<exists>d. docx2txt_load w p = Inr [d]"
    by (simp add: split)
  from Cons.IH [OF this, of "acc @ docs1"] obtain docs2 where
    2: "load_walk w walk (acc @ docs1) = Inr ((acc @ docs1) @ docs2)"
    and n2: "length docs2 = length (docx_paths walk)"
    and e2: "\<forall>i < length docs2. docx2txt_load w (docx_paths walk ! i) = Inr [docs2 ! i]"
    by blast
  have "load_walk w (x # walk) acc = Inr (acc @ (docs1 @ docs2))"
    using 1 2 by (simp add: x)
  moreover have "length (docs1 @ docs2) = length (docx_paths (x # walk))"
    using n1 n2 by (simp add: split)
  moreover have "\<forall>i < length (docs1 @ docs2).
      docx2txt_load w (docx_paths (x # walk) ! i) = Inr [(docs1 @ docs2) ! i]"
    using e1 e2 n1 n2 by (auto simp: split nth_append)
  ultimately show ?case by blast
qed

lemma texts_of_files_none:
  "\<forall>f \<in> set files. \<not> endswith f ''.docx'' \<Longrightarrow> texts_of_files w root files acc = Inr acc"
  by (induction files) auto

lemma texts_of_walk_none:
  "docx_paths walk = [] \<Longrightarrow> texts_of_walk w walk acc = Inr acc"
proof (induction walk)
  case Nil
  then show ?case by simp
next
  case (Cons x walk)
  obtain root dirs files where x: "x = (root, dirs, files)" by (cases x) auto
  from Cons.prems have "\<forall>f \<in> set files. \<not> endswith f ''.docx''" and "docx_paths walk = []"
    by (auto simp: docx_paths_def x filter_empty_conv)
  with Cons.IH show ?case by (simp add: x texts_of_files_none)
qed

text \<open>
  C3, as the code has it. Over a walk with no file ending in \<open>.docx\<close>,
  \<open>_load_docx_documents\<close> raises \<open>ValueError\<close> (the specification's
  \<open>NoDocumentsFoundError\<close>), while the script's \<open>load_docx_texts_from_folder\<close>
  raises nothing and returns the empty text. Over a walk with N such files, N at least
  1, each loading to one document, \<open>_load_docx_documents\<close> returns exactly N
  documents, the i-th loaded from the i-th file, and prints their number.
\<close>

theorem ingestion_counts_documents:
  "(docx_paths (os_walk w folder) = [] \<longrightarrow>
      load_docx_documents w folder = (Inl ValueError, [])
      \<and> load_docx_texts_from_folder w folder = Inr [])
   \<and> (docx_paths (os_walk w folder) \<noteq> []
        \<and> (\<forall>p \<in> set (docx_paths (os_walk w folder)). \<exists>d. docx2txt_load w p = Inr [d]) \<longrightarrow>
        (\<exists>docs. load_docx_documents w folder
                   = (Inr docs, [Loaded_documents (length (docx_paths (os_walk w folder)))])
           \<and> length docs = length (docx_paths (os_walk w folder))
           \<and> (\<forall>i < length docs. docx2txt_load w (docx_paths (os_walk w folder) ! i) = Inr [docs ! i])))"
proof (intro conjI impI)
  assume e: "docx_paths (os_walk w folder) = []"
  then have "\<forall>p \<in> set (docx_paths (os_walk w folder)). \<exists>d. docx2txt_load w p = Inr [d]" by simp
  from load_walk_all [OF this, of "[]"] e
  show "load_docx_documents w folder = (Inl ValueError, [])"
    by (auto simp: load_docx_documents_def)
  from e show "load_docx_texts_from_folder w folder = Inr []"
    by (simp add: load_docx_texts_from_folder_def texts_of_walk_none)
next
  assume a: "docx_paths (os_walk w folder) \<noteq> []
        \<and> (\<forall>p \<in> set (docx_paths (os_walk w folder)). \<exists>d. docx2txt_load w p = Inr [d])"
  then have "\<forall>p \<in> set (docx_paths (os_walk w folder)). \<exists>d. docx2txt_load w p = Inr [d]" by simp
  from load_walk_all [OF this, of "[]"] obtain docs where
    l: "load_walk w (os_walk w folder) [] = Inr docs"
    and n: "length docs = length (docx_paths (os_walk w folder))"
    and e: "\<forall>i < length docs. docx2txt_load w (docx_paths (os_walk w folder) ! i) = Inr [docs ! i]"
    by auto
  from a n have "docs \<noteq> []" by auto
  with l n have "load_docx_documents w folder
                   = (Inr docs, [Loaded_documents (length (docx_paths (os_walk w folder)))])"
    by (simp add: load_docx_documents_def)
  with n e show "\<exists>docs. load_docx_documents w folder
                   = (Inr docs, [Loaded_documents (length (docx_paths (os_walk w folder)))])
           \<and> length docs = length (docx_paths (os_walk w folder))
           \<and> (\<forall>i < length docs. docx2txt_load w (docx_paths (os_walk w folder) ! i) = Inr [docs ! i])"
    by blast
qed

text \<open>
  Against C3 as the specification states it: in a folder without documents, the script's
  ingestion does not fail.
\<close>

theorem script_ingestion_does_not_fail:
  "docx_paths (os_walk world_without_docx ''docs'') = []
   \<and> load_docx_texts_from_folder world_without_docx ''docs'' = Inr []"
  by (simp add: docx_paths_def world_without_docx_def world0_def endswith_def
        load_docx_texts_from_folder_def)

theorem ingestion_counts_documents_witness:
  "docx_paths (os_walk world0 ''docs'') = [''docs/a.docx'', ''docs/sub/b.docx'']
   \<and> (\<exists>docs. load_docx_documents world0 ''docs'' = (Inr docs, [Loaded_documents 2])
         \<and> length docs = 2)
   \<and> docx_paths (os_walk world_without_docx ''docs'') = []
   \<and> load_docx_documents world_without_docx ''docs'' = (Inl ValueError, [])"
proof -
  have p: "docx_paths (os_walk world0 ''docs'') = [''docs/a.docx'', ''docs/sub/b.docx'']"
    by (simp add: docx_paths_def world0_def endswith_def path_join_def startswith_def)
  have "\<forall>p \<in> set (docx_paths (os_walk world0 ''docs'')). \<exists>d. docx2txt_load world0 p = Inr [d]"
    by (simp add: world0_def)
  with p ingestion_counts_documents [of world0 "''docs''"]
  have "\<exists>docs. load_docx_documents world0 ''docs'' = (Inr docs, [Loaded_documents 2]) \<and> length docs = 2"
    by auto
  moreover have e: "docx_paths (os_walk world_without_docx ''docs'') = []"
    by (simp add: docx_paths_def world_without_docx_def world0_def endswith_def)
  moreover from e ingestion_counts_documents [of world_without_docx "''docs''"]
  have "load_docx_documents world_without_docx ''docs'' = (Inl ValueError, [])"
    by blast
  ultimately show ?thesis using p by blast
qed

section \<open>The fallback chain\<close>

lemma default_template_pieces:
  "default_template =
     prompt_before_context @ ''{context}'' @ prompt_between @ ''{question}'' @ prompt_after_question"
  by (simp add: default_template_def prompt_before_context_def prompt_between_def
        prompt_after_question_def)

lemma format_literal:
  "CHR ''{'' \<notin> set s \<Longrightarrow> CHR ''}'' \<notin> set s \<Longrightarrow>
   format_from kw None (s @ rest) = prepend s (format_from kw None rest)"
proof (induction s)
  case Nil
  show ?case by (simp add: prepend_def split: sum.splits)
next
  case (Cons c cs)
  then show ?case by (auto simp: prepend_def split: sum.splits)
qed

lemma format_context:
  "format_from [(''context'', c), (''question'', q)] None (''{context}'' @ rest) =
     prepend c (format_from [(''context'', c), (''question'', q)] None rest)"
  by (simp add: is_digit_def char_eval)

lemma format_question:
  "format_from [(''context'', c), (''question'', q)] None (''{question}'' @ rest) =
     prepend q (format_from [(''context'', c), (''question'', q)] None rest)"
  by (simp add: is_digit_def char_eval)

lemma prepend_Inr: "prepend s (Inr t) = Inr (s @ t)"
  by (simp add: prepend_def)

lemma py_format_default_template:
  "py_format default_template [(''context'', c), (''question'', q)] = Inr (filled_prompt c q)"
proof -
  let ?kw = "[(''context'', c), (''question'', q)]"
  have 1: "format_from ?kw None (prompt_before_context @ rest)
           = prepend prompt_before_context (format_from ?kw None rest)" for rest
    by (rule format_literal) (simp_all add: prompt_before_context_def LF_def)
  have 2: "format_from ?kw None (prompt_between @ rest)
           = prepend prompt_between (format_from ?kw None rest)" for rest
    by (rule format_literal) (simp_all add: prompt_between_def LF_def)
  have "format_from ?kw None (prompt_after_question @ [])
           = prepend prompt_after_question (format_from ?kw None [])"
    by (rule format_literal) (simp_all add: prompt_after_question_def LF_def)
  then have 3: "format_from ?kw None prompt_after_question = Inr prompt_after_question"
    by (simp add: prepend_Inr)
  show ?thesis
    unfolding py_format_def default_template_pieces filled_prompt_def
    by (simp only: 1 2 3 format_context format_question prepend_Inr)
qed

lemma join_contains: "x \<in> set xs \<Longrightarrow> \<exists>a b. join sep xs = a @ x @ b"
proof (induction sep xs rule: join.induct)
  case (1 sep)
  then show ?case by simp
next
  case (2 sep y)
  then have "join sep [y] = [] @ x @ []" by simp
  then show ?case by blast
next
  case (3 sep y z zs)
  show ?case
  proof (cases "x = y")
    case True
    then have "join sep (y # z # zs) = [] @ x @ (sep @ join sep (z # zs))" by simp
    then show ?thesis by blast
  next
    case False
    with 3 obtain a b where "join sep (z # zs) = a @ x @ b" by auto
    then have "join sep (y # z # zs) = (y @ sep @ a) @ x @ b" by simp
    then show ?thesis by blast
  qed
qed

lemma init_fallback:
  assumes "init w folder model csize coverlap = (Inr rag, out)" and "retriever rag = None"
  shows "chain rag = Simple_chain default_template (join [LF, LF] (map page_content (documents rag)))
         \<and> model_name rag = model"
  using assms
  by (auto simp: init_def create_retrieval_chain_def Let_def
           split: prod.splits sum.splits if_splits option.splits)

lemma query_fallback:
  "chain rag = Simple_chain default_template context \<Longrightarrow>
   query w rag question = llm_invoke w (model_name rag) (filled_prompt context question)"
  by (simp add: query_def simple_chain_def py_format_default_template)

lemma init_without_chroma:
  assumes "load_docx_documents w folder = (Inr docs, out0)" and "import_chroma w = Inl ImportError"
  shows "\<exists>rag out. init w folder model csize coverlap = (Inr rag, out)
           \<and> retriever rag = None \<and> documents rag = docs"
  using assms by (simp add: init_def try_chroma_def create_retrieval_chain_def Let_def)

text \<open>
  C1: in a system built by \<open>__init__\<close> whose retriever is \<open>None\<close>, for every
  question, \<open>query\<close> is the answer of the model (the one named at construction) to
  the default template filled with all loaded documents' texts, joined by blank lines,
  as context and with the question; formatting never fails, and every document's text
  is in the prompt. When the vector store module cannot be imported, \<open>__init__\<close>
  builds such a system from whatever documents were loaded.
\<close>

theorem fallback_uses_full_corpus:
  "(init w folder model csize coverlap = (Inr rag, out) \<and> retriever rag = None \<longrightarrow>
      py_format default_template
          [(''context'', join [LF, LF] (map page_content (documents rag))), (''question'', question)]
        = Inr (filled_prompt (join [LF, LF] (map page_content (documents rag))) question)
      \<and> query w rag question =
          llm_invoke w model
            (filled_prompt (join [LF, LF] (map page_content (documents rag))) question)
      \<and> (\<forall>d \<in> set (documents rag).
            \<exists>a b. filled_prompt (join [LF, LF] (map page_content (documents rag))) question
                    = a @ page_content d @ b))
   \<and> (load_docx_documents w folder = (Inr docs, out0) \<and> import_chroma w = Inl ImportError \<longrightarrow>
        (\<exists>rag out. init w folder model csize coverlap = (Inr rag, out)
           \<and> retriever rag = None \<and> documents rag = docs))"
proof (intro conjI impI ballI)
  show "py_format default_template
          [(''context'', join [LF, LF] (map page_content (documents rag))), (''question'', question)]
        = Inr (filled_prompt (join [LF, LF] (map page_content (documents rag))) question)"
    by (rule py_format_default_template)
next
  assume "init w folder model csize coverlap = (Inr rag, out) \<and> retriever rag = None"
  then have "chain rag = Simple_chain default_template (join [LF, LF] (map page_content (documents rag)))"
    and "model_name rag = model"
    using init_fallback by blast+
  then show "query w rag question =
          llm_invoke w model
            (filled_prompt (join [LF, LF] (map page_content (documents rag))) question)"
    using query_fallback by metis
next
  fix d
  assume "d \<in> set (documents rag)"
  then have "page_content d \<in> set (map page_content (documents rag))" by simp
  from join_contains [OF this, of "[LF, LF]"] obtain a b where
    "join [LF, LF] (map page_content (documents rag)) = a @ page_content d @ b" by blast
  then have "filled_prompt (join [LF, LF] (map page_content (documents rag))) question
     = (prompt_before_context @ a) @ page_content d @ (b @ prompt_between @ question @ prompt_after_question)"
    by (simp add: filled_prompt_def)
  then show "\<exists>a b. filled_prompt (join [LF, LF] (map page_content (documents rag))) question
                    = a @ page_content d @ b"
    by blast
next
  assume "load_docx_documents w folder = (Inr docs, out0) \<and> import_chroma w = Inl ImportError"
  then show "\<exists>rag out. init w folder model csize coverlap = (Inr rag, out)
           \<and> retriever rag = None \<and> documents rag = docs"
    using init_without_chroma by blast
qed

lemma load_docx_documents_world0:
  "load_docx_documents (world0\<lparr>llm_invoke := f\<rparr>) ''docs'' =
     (Inr [\<lparr>page_content = ''Text of docs/a.docx'', metadata_source = ''docs/a.docx''\<rparr>,
           \<lparr>page_content = ''Text of docs/sub/b.docx'', metadata_source = ''docs/sub/b.docx''\<rparr>],
      [Loaded_documents 2])"
  by (simp add: load_docx_documents_def world0_def endswith_def path_join_def startswith_def)

theorem fallback_uses_full_corpus_witness:
  "\<exists>rag out. init world_echo ''docs'' ''llama3.2'' 500 100 = (Inr rag, out) \<and> retriever rag = None
     \<and> query world_echo rag ''Who?'' =
           Inr (prompt_before_context @ ''Text of docs/a.docx'' @ [LF, LF] @ ''Text of docs/sub/b.docx''
                @ prompt_between @ ''Who?'' @ prompt_after_question)"
proof -
  let ?docs = "[\<lparr>page_content = ''Text of docs/a.docx'', metadata_source = ''docs/a.docx''\<rparr>,
           \<lparr>page_content = ''Text of docs/sub/b.docx'', metadata_source = ''docs/sub/b.docx''\<rparr>]"
  have "load_docx_documents world_echo ''docs'' = (Inr ?docs, [Loaded_documents 2])
          \<and> import_chroma world_echo = Inl ImportError"
    using load_docx_documents_world0 by (simp add: world_echo_def world0_def)
  with fallback_uses_full_corpus [of world_echo "''docs''" "''llama3.2''" 500 100]
  obtain rag out where i: "init world_echo ''docs'' ''llama3.2'' 500 100 = (Inr rag, out)"
    and r: "retriever rag = None" and d: "documents rag = ?docs"
    by blast
  with fallback_uses_full_corpus [of world_echo "''docs''" "''llama3.2''" 500 100 rag out "''Who?''"]
  have "query world_echo rag ''Who?'' =
          llm_invoke world_echo ''llama3.2''
            (filled_prompt (join [LF, LF] (map page_content (documents rag))) ''Who?'')"
    by blast
  then have "query world_echo rag ''Who?'' =
           Inr (prompt_before_context @ ''Text of docs/a.docx'' @ [LF, LF] @ ''Text of docs/sub/b.docx''
                @ prompt_between @ ''Who?'' @ prompt_after_question)"
    by (simp add: d filled_prompt_def world_echo_def world0_def)
  with i r show ?thesis by blast
qed

section \<open>The interactive loop\<close>

lemma init_world0:
  "init (world0\<lparr>llm_invoke := f\<rparr>) ''docs'' model csize coverlap =
     (Inr \<lparr>folder_path = ''docs'', model_name = model, chunk_size = csize, chunk_overlap = coverlap,
           documents = [\<lparr>page_content = ''Text of docs/a.docx'', metadata_source = ''docs/a.docx''\<rparr>,
                        \<lparr>page_content = ''Text of docs/sub/b.docx'', metadata_source = ''docs/sub/b.docx''\<rparr>],
           vector_store = None, retriever = None,
           chain = Simple_chain default_template
                     (''Text of docs/a.docx'' @ [LF, LF] @ ''Text of docs/sub/b.docx'')\<rparr>,
      [Loaded_documents 2, Chroma_not_available, No_retriever_available])"
  using load_docx_documents_world0 [of f]
  by (simp add: init_def try_chroma_def create_retrieval_chain_def world0_def)

lemma py_lower_examples:
  "py_lower ''QUIT'' = ''quit''" "py_lower ''Quit'' = ''quit''" "py_lower ''quit'' = ''quit''"
  "py_lower ''Which model?'' \<noteq> ''quit''"
  by (simp_all add: py_lower_def py_lower_char_def char_eval)



text \<open>
  C9 at the command line \<open>docs --model mistral\<close>: the model that answers is
  \<open>llama3.2\<close>, not the one the option names.
\<close>

theorem model_option_is_ignored:
  "main world0 \<lparr>arg_folder_path = ''docs'', arg_model = ''mistral''\<rparr> [''Which model?'', ''quit''] =
     (None, [Print (Loaded_documents 2), Print Chroma_not_available, Print No_retriever_available,
             Prompt, Query ''Which model?'', Print (Response ''llama3.2''), Prompt])"
proof -
  have i: "init world0 ''docs'' ''llama3.2'' 500 100 = (Inr rag0, [Loaded_documents 2, Chroma_not_available, No_retriever_available])"
    using init_world0 [of "llm_invoke world0" "''llama3.2''" 500 100]
    by (simp add: rag0_def)
  have q: "query world0 rag0 ''Which model?'' = Inr ''llama3.2''"
    by (simp add: query_def simple_chain_def rag0_def py_format_default_template world0_def)
  show ?thesis
    using py_lower_examples by (simp add: main_def i q)
qed

lemma main_does_not_read_the_model_option:
  "main w (a\<lparr>arg_model := m\<rparr>) stdin = main w a stdin"
  by (simp add: main_def)

text \<open>
  The rest of C9: a query that raises an \<open>Exception\<close> is answered with an error line,
  and the loop goes on with the next line.
\<close>

lemma query_failure_keeps_prompting:
  "query w rag_system line = Inl e \<Longrightarrow> is_Exception e \<Longrightarrow> py_lower line \<noteq> ''quit'' \<Longrightarrow>
   query_loop w rag_system (line # rest) =
     (fst (query_loop w rag_system rest),
      Prompt # Query line # Print (Error_processing_query e) # snd (query_loop w rag_system rest))"
  by (simp split: prod.splits)

end
